theory Spec2Isabelle
  imports Main "HOL-Library.Product_Lexorder"
begin

section \<open>The program\<close>

subsection \<open>Tokenizer: \<open>re.findall(r'\S+|\s+', s)\<close>\<close>

text \<open>
  A Python \<open>str\<close> is a sequence of code points; it is modelled as a list over a
  character type \<open>'c\<close>. The class \<open>\s\<close> of the \<open>re\<close> module is a table of the regular
  expression library: the functions below take it as the predicate \<open>sp\<close>, and \<open>\S\<close> is
  its complement. The predicate \<open>isspace\<close> instantiates it for the 8-bit characters of
  \<open>string\<close> (the code points below 256 that \<open>str.isspace\<close> and \<open>\s\<close> accept).
\<close>

definition isspace :: "char \<Rightarrow> bool" where
  "isspace c = (of_char c \<in> {9, 10, 11, 12, 13, 28, 29, 30, 31, 32, 133, 160 :: nat})"

text \<open>
  \<open>match_plus P s\<close> is the greedy match of \<open>X+\<close> at the start of \<open>s\<close>, where \<open>P\<close> is the
  class \<open>X\<close>: the longest prefix of characters in the class and the rest, or no match
  when the first character is not in the class. Nothing follows \<open>X+\<close> in either
  alternative, so the greedy match never backtracks.
\<close>

definition match_plus :: "('c \<Rightarrow> bool) \<Rightarrow> 'c list \<Rightarrow> ('c list \<times> 'c list) option" where
  "match_plus P s =
     (if takeWhile P s = [] then None else Some (takeWhile P s, dropWhile P s))"

text \<open>The pattern \<open>\S+|\s+\<close>: the left alternative is tried first.\<close>

definition match_token :: "('c \<Rightarrow> bool) \<Rightarrow> 'c list \<Rightarrow> ('c list \<times> 'c list) option" where
  "match_token sp s =
     (case match_plus (\<lambda>c. \<not> sp c) s of
        Some r \<Rightarrow> Some r
      | None \<Rightarrow> match_plus sp s)"

lemma dropWhile_shorter: "takeWhile P s \<noteq> [] \<Longrightarrow> length (dropWhile P s) < length s"
proof -
  assume "takeWhile P s \<noteq> []"
  then have "0 < length (takeWhile P s)" by simp
  moreover have "length (takeWhile P s) + length (dropWhile P s) = length s"
    by (metis length_append takeWhile_dropWhile_id)
  ultimately show ?thesis by linarith
qed

lemma match_token_shorter:
  "match_token sp s = Some (tok, rest) \<Longrightarrow> length rest < length s"
  by (auto simp: match_token_def match_plus_def dropWhile_shorter split: option.splits if_splits)

text \<open>
  \<open>re.findall\<close> scans from the left: at each position it tries the pattern, keeps the
  match and continues after it, or moves one character on when nothing matches there.
\<close>

function findall :: "('c \<Rightarrow> bool) \<Rightarrow> 'c list \<Rightarrow> 'c list list" where
  "findall sp s =
     (if s = [] then []
      else case match_token sp s of
             Some (tok, rest) \<Rightarrow> tok # findall sp rest
           | None \<Rightarrow> findall sp (tl s))"
  by pat_completeness auto
termination
  by (relation "measure (\<lambda>(sp, s). length s)") (auto simp: match_token_shorter)

declare findall.simps [simp del]

subsection \<open>The sequence matcher: \<open>difflib.SequenceMatcher(None, a, b)\<close>\<close>

text \<open>
  \<open>generate_word_diff\<close> aligns the two token lists with the sequence matcher of Python's
  standard library. The definitions of this section follow \<open>difflib.py\<close> (CPython 3.11),
  for the call \<open>SequenceMatcher(None, a, b)\<close>: no junk predicate, \<open>autojunk\<close> left at
  its default \<open>True\<close>. Indices are natural numbers; the two places where the Python
  computes with a possibly negative number are written out where they occur.
\<close>

type_synonym match = "nat \<times> nat \<times> nat"
  \<comment> \<open>\<open>Match(a, b, size)\<close>\<close>

type_synonym opcode = "string \<times> nat \<times> nat \<times> nat \<times> nat"
  \<comment> \<open>\<open>(tag, i1, i2, j1, j2)\<close>\<close>

definition dict_get :: "('k \<rightharpoonup> 'v) \<Rightarrow> 'k \<Rightarrow> 'v \<Rightarrow> 'v" where
  "dict_get d key dflt = (case d key of None \<Rightarrow> dflt | Some v \<Rightarrow> v)"
  \<comment> \<open>\<open>d.get(key, dflt)\<close>\<close>

text \<open>
  \<open>__chain_b\<close>: \<open>b2j\<close> maps each element of \<open>b\<close> to the increasing list of its indices.
  With \<open>isjunk = None\<close> the junk set stays empty. When \<open>b\<close> has at least 200 elements,
  the elements that occur more than \<open>n // 100 + 1\<close> times are deleted from \<open>b2j\<close>.
\<close>

definition chain_b :: "'a list \<Rightarrow> ('a \<rightharpoonup> nat list)" where
  "chain_b b =
     (let b2j = fold (\<lambda>(i, elt) m. m(elt \<mapsto> dict_get m elt [] @ [i])) (enumerate 0 b) Map.empty;
          n = length b
      in if n \<ge> 200
         then (let ntest = n div 100 + 1
               in (\<lambda>elt. case b2j elt of
                            None \<Rightarrow> None
                          | Some idxs \<Rightarrow> if length idxs > ntest then None else Some idxs))
         else b2j)"

definition isbjunk :: "'a \<Rightarrow> bool" where
  "isbjunk elt = (elt \<in> {})"

text \<open>
  The inner loop of \<open>find_longest_match\<close>, over the indices \<open>j\<close> of \<open>b2j.get(a[i], nothing)\<close>:
  \<open>continue\<close> below \<open>blo\<close>, \<open>break\<close> from \<open>bhi\<close> on. The keys of \<open>j2len\<close> are integers,
  since the Python looks up \<open>j - 1\<close>, which is \<open>-1\<close> for \<open>j = 0\<close>. The new start
  \<open>i - k + 1\<close> is written \<open>i + 1 - k\<close>: \<open>k\<close> never exceeds \<open>i + 1 - alo\<close> (and
  \<open>j + 1 - blo\<close>), which \<open>longest_junk_free_bounds\<close> below proves.
\<close>

fun row_loop :: "nat \<Rightarrow> nat \<Rightarrow> nat \<Rightarrow> (int \<rightharpoonup> nat) \<Rightarrow> nat list \<Rightarrow>
    (int \<rightharpoonup> nat) \<times> match \<Rightarrow> (int \<rightharpoonup> nat) \<times> match" where
  "row_loop blo bhi i j2len [] st = st"
| "row_loop blo bhi i j2len (j # js) (newj2len, besti, bestj, bestsize) =
     (if j < blo then row_loop blo bhi i j2len js (newj2len, besti, bestj, bestsize)
      else if j \<ge> bhi then (newj2len, besti, bestj, bestsize)
      else let k = dict_get j2len (int j - 1) 0 + 1
           in if k > bestsize
              then row_loop blo bhi i j2len js (newj2len(int j \<mapsto> k), i + 1 - k, j + 1 - k, k)
              else row_loop blo bhi i j2len js (newj2len(int j \<mapsto> k), besti, bestj, bestsize))"

text \<open>The outer loop, \<open>for i in range(alo, ahi)\<close>, over the list of its indices.\<close>

fun longest_junk_free :: "'a list \<Rightarrow> ('a \<rightharpoonup> nat list) \<Rightarrow> nat \<Rightarrow> nat \<Rightarrow> nat list \<Rightarrow>
    (int \<rightharpoonup> nat) \<times> match \<Rightarrow> match" where
  "longest_junk_free a b2j blo bhi [] (j2len, best) = best"
| "longest_junk_free a b2j blo bhi (i # rows) (j2len, best) =
     longest_junk_free a b2j blo bhi rows
       (row_loop blo bhi i j2len (dict_get b2j (a ! i) []) (Map.empty, best))"

text \<open>
  The four \<open>while\<close> loops that extend the best match at both ends: \<open>ok\<close> is
  \<open>not isbjunk\<close> for the first pair of loops and \<open>isbjunk\<close> for the second.
\<close>

fun extend_left :: "('a \<Rightarrow> bool) \<Rightarrow> 'a list \<Rightarrow> 'a list \<Rightarrow> nat \<Rightarrow> nat \<Rightarrow> match \<Rightarrow> match" where
  "extend_left ok a b alo blo (besti, bestj, bestsize) =
     (if besti > alo \<and> bestj > blo \<and> ok (b ! (bestj - 1)) \<and> a ! (besti - 1) = b ! (bestj - 1)
      then extend_left ok a b alo blo (besti - 1, bestj - 1, bestsize + 1)
      else (besti, bestj, bestsize))"

function extend_right :: "('a \<Rightarrow> bool) \<Rightarrow> 'a list \<Rightarrow> 'a list \<Rightarrow> nat \<Rightarrow> nat \<Rightarrow> match \<Rightarrow> match" where
  "extend_right ok a b ahi bhi (besti, bestj, bestsize) =
     (if besti + bestsize < ahi \<and> bestj + bestsize < bhi \<and> ok (b ! (bestj + bestsize)) \<and>
         a ! (besti + bestsize) = b ! (bestj + bestsize)
      then extend_right ok a b ahi bhi (besti, bestj, bestsize + 1)
      else (besti, bestj, bestsize))"
  by pat_completeness auto
termination
  by (relation "measure (\<lambda>(ok, a, b, ahi, bhi, besti, bestj, bestsize). ahi - (besti + bestsize))") auto

declare extend_left.simps [simp del] extend_right.simps [simp del]

definition find_longest_match :: "'a list \<Rightarrow> 'a list \<Rightarrow> ('a \<rightharpoonup> nat list) \<Rightarrow>
    nat \<Rightarrow> nat \<Rightarrow> nat \<Rightarrow> nat \<Rightarrow> match" where
  "find_longest_match a b b2j alo ahi blo bhi =
     (let best0 = longest_junk_free a b2j blo bhi [alo..<ahi] (Map.empty, (alo, blo, 0));
          best1 = extend_left (\<lambda>elt. \<not> isbjunk elt) a b alo blo best0;
          best2 = extend_right (\<lambda>elt. \<not> isbjunk elt) a b ahi bhi best1;
          best3 = extend_left isbjunk a b alo blo best2;
          best4 = extend_right isbjunk a b ahi bhi best3
      in best4)"

subsubsection \<open>The longest match lies inside the window\<close>

text \<open>
  The bounds proved here are what makes the queue loop of \<open>get_matching_blocks\<close>
  terminate, so they come before it.
\<close>

definition best_ok :: "nat \<Rightarrow> nat \<Rightarrow> nat \<Rightarrow> nat \<Rightarrow> match \<Rightarrow> bool" where
  "best_ok alo blo ahi bhi m =
     (case m of (besti, bestj, bestsize) \<Rightarrow>
        alo \<le> besti \<and> blo \<le> bestj \<and>
        (if bestsize = 0 then besti = alo \<and> bestj = blo
         else besti + bestsize \<le> ahi \<and> bestj + bestsize \<le> bhi))"

definition j2len_ok :: "nat \<Rightarrow> nat \<Rightarrow> nat \<Rightarrow> (int \<rightharpoonup> nat) \<Rightarrow> bool" where
  "j2len_ok alo blo lo m =
     (\<forall>x v. m x = Some v \<longrightarrow> 1 \<le> v \<and> v + alo \<le> lo \<and> int v + int blo \<le> x + 1)"

lemma j2len_ok_empty [simp]: "j2len_ok alo blo lo Map.empty"
  by (simp add: j2len_ok_def)

lemma j2len_ok_update:
  "j2len_ok alo blo lo m \<Longrightarrow> 1 \<le> k \<Longrightarrow> k + alo \<le> lo \<Longrightarrow> k + blo \<le> j + 1 \<Longrightarrow>
   j2len_ok alo blo lo (m(int j \<mapsto> k))"
  by (auto simp: j2len_ok_def)

lemma row_loop_bounds:
  assumes "j2len_ok alo blo i j2len" and "alo \<le> i" and "i < ahi"
  shows "j2len_ok alo blo (Suc i) newj2len \<Longrightarrow> best_ok alo blo ahi bhi best \<Longrightarrow>
         row_loop blo bhi i j2len js (newj2len, best) = (m', best') \<Longrightarrow>
         j2len_ok alo blo (Suc i) m' \<and> best_ok alo blo ahi bhi best'"
proof (induction js arbitrary: newj2len best)
  case Nil
  then show ?case by simp
next
  case (Cons j js)
  obtain besti bestj bestsize where best: "best = (besti, bestj, bestsize)"
    by (cases best) auto
  show ?case
  proof (cases "j < blo")
    case True
    with Cons.prems best have "row_loop blo bhi i j2len js (newj2len, best) = (m', best')" by simp
    with Cons.IH Cons.prems(1,2) show ?thesis by blast
  next
    case lo: False
    show ?thesis
    proof (cases "j \<ge> bhi")
      case True
      with lo Cons.prems best show ?thesis by simp
    next
      case hi: False
      define k where "k = dict_get j2len (int j - 1) 0 + 1"
      have k1: "1 \<le> k" by (simp add: k_def)
      have ka: "k + alo \<le> Suc i"
        using assms(1,2) by (auto simp: k_def dict_get_def j2len_ok_def split: option.splits)
      have kb: "k + blo \<le> j + 1"
        using assms(1) lo by (fastforce simp: k_def dict_get_def j2len_ok_def split: option.splits)
      have new: "j2len_ok alo blo (Suc i) (newj2len(int j \<mapsto> k))"
        using Cons.prems(1) k1 ka kb by (rule j2len_ok_update)
      show ?thesis
      proof (cases "k > bestsize")
        case True
        have "best_ok alo blo ahi bhi (i + 1 - k, j + 1 - k, k)"
          using k1 ka kb hi assms(3) by (auto simp: best_ok_def)
        moreover have "row_loop blo bhi i j2len js (newj2len(int j \<mapsto> k), i + 1 - k, j + 1 - k, k) = (m', best')"
          using Cons.prems(3) best lo hi True by (simp add: k_def Let_def)
        ultimately show ?thesis using Cons.IH new by blast
      next
        case False
        then have "row_loop blo bhi i j2len js (newj2len(int j \<mapsto> k), best) = (m', best')"
          using Cons.prems(3) best lo hi by (simp add: k_def Let_def)
        with Cons.IH new Cons.prems(2) show ?thesis by blast
      qed
    qed
  qed
qed

lemma longest_junk_free_bounds:
  "j2len_ok alo blo lo j2len \<Longrightarrow> alo \<le> lo \<Longrightarrow> best_ok alo blo ahi bhi best \<Longrightarrow>
   best_ok alo blo ahi bhi (longest_junk_free a b2j blo bhi [lo..<ahi] (j2len, best))"
proof (induction "ahi - lo" arbitrary: lo j2len best)
  case 0
  then show ?case by simp
next
  case (Suc n)
  then have lt: "lo < ahi" by simp
  define js where "js = dict_get b2j (a ! lo) []"
  obtain m' best' where row: "row_loop blo bhi lo j2len js (Map.empty, best) = (m', best')"
    by (cases "row_loop blo bhi lo j2len js (Map.empty, best)") auto
  from row_loop_bounds [OF Suc.prems(1,2) lt j2len_ok_empty Suc.prems(3) row]
  have ok: "j2len_ok alo blo (Suc lo) m'" "best_ok alo blo ahi bhi best'" by simp_all
  have "n = ahi - Suc lo" using Suc.hyps(2) by simp
  from Suc.hyps(1) [OF this ok(1) _ ok(2)] Suc.prems(2)
  have "best_ok alo blo ahi bhi (longest_junk_free a b2j blo bhi [Suc lo..<ahi] (m', best'))"
    by simp
  then show ?case using lt row by (simp add: upt_conv_Cons js_def)
qed

lemma extend_left_bounds:
  "best_ok alo blo ahi bhi m \<Longrightarrow> best_ok alo blo ahi bhi (extend_left ok a b alo blo m)"
proof (induction ok a b alo blo m rule: extend_left.induct)
  case (1 ok a b alo blo besti bestj bestsize)
  show ?case
  proof (cases "besti > alo \<and> bestj > blo \<and> ok (b ! (bestj - 1)) \<and> a ! (besti - 1) = b ! (bestj - 1)")
    case True
    with "1.prems" have "best_ok alo blo ahi bhi (besti - 1, bestj - 1, bestsize + 1)"
      by (auto simp: best_ok_def split: if_splits)
    with "1.IH" True show ?thesis by (subst extend_left.simps) simp
  next
    case False
    with "1.prems" show ?thesis by (subst extend_left.simps) auto
  qed
qed

lemma extend_right_bounds:
  "best_ok alo blo ahi bhi m \<Longrightarrow> best_ok alo blo ahi bhi (extend_right ok a b ahi bhi m)"
proof (induction ok a b ahi bhi m rule: extend_right.induct)
  case (1 ok a b ahi bhi besti bestj bestsize)
  show ?case
  proof (cases "besti + bestsize < ahi \<and> bestj + bestsize < bhi \<and> ok (b ! (bestj + bestsize)) \<and>
         a ! (besti + bestsize) = b ! (bestj + bestsize)")
    case True
    with "1.prems" have "best_ok alo blo ahi bhi (besti, bestj, bestsize + 1)"
      by (auto simp: best_ok_def split: if_splits)
    with "1.IH" True show ?thesis by (subst extend_right.simps) simp
  next
    case False
    with "1.prems" show ?thesis by (subst extend_right.simps) auto
  qed
qed

lemma find_longest_match_bounds:
  "best_ok alo blo ahi bhi (find_longest_match a b b2j alo ahi blo bhi)"
proof -
  have "best_ok alo blo ahi bhi (alo, blo, 0)" by (simp add: best_ok_def)
  then have "best_ok alo blo ahi bhi
      (longest_junk_free a b2j blo bhi [alo..<ahi] (Map.empty, (alo, blo, 0)))"
    by (intro longest_junk_free_bounds) simp_all
  then show ?thesis
    unfolding find_longest_match_def Let_def
    by (intro extend_right_bounds extend_left_bounds)
qed

subsubsection \<open>\<open>get_matching_blocks\<close> and \<open>get_opcodes\<close>\<close>

text \<open>
  The \<open>while queue:\<close> loop of \<open>get_matching_blocks\<close>. \<open>queue.pop()\<close> takes the last
  element of the list and \<open>append\<close> adds at its end. The loop ends because every window
  pushed is strictly inside the window popped; the weight below makes that a measure.
\<close>

definition qweight :: "(nat \<times> nat \<times> nat \<times> nat) list \<Rightarrow> nat" where
  "qweight queue = sum_list (map (\<lambda>(alo, ahi, blo, bhi). 2 * (ahi - alo) + 1) queue)"

lemma qweight_snoc:
  "qweight (queue @ [(alo, ahi, blo, bhi)]) = qweight queue + 2 * (ahi - alo) + 1"
  by (simp add: qweight_def)

lemma qweight_pop:
  "queue \<noteq> [] \<Longrightarrow> last queue = (alo, ahi, blo, bhi) \<Longrightarrow>
   qweight queue = qweight (butlast queue) + 2 * (ahi - alo) + 1"
  using qweight_snoc [of "butlast queue" alo ahi blo bhi] by (metis append_butlast_last_id)

function mb_loop :: "'a list \<Rightarrow> 'a list \<Rightarrow> ('a \<rightharpoonup> nat list) \<Rightarrow>
    (nat \<times> nat \<times> nat \<times> nat) list \<Rightarrow> match list \<Rightarrow> match list" where
  "mb_loop a b b2j queue matching_blocks =
     (if queue = [] then matching_blocks
      else case last queue of (alo, ahi, blo, bhi) \<Rightarrow>
        (case find_longest_match a b b2j alo ahi blo bhi of (i, j, k) \<Rightarrow>
           if k \<noteq> 0
           then mb_loop a b b2j
                  ((if alo < i \<and> blo < j then butlast queue @ [(alo, i, blo, j)] else butlast queue) @
                   (if i + k < ahi \<and> j + k < bhi then [(i + k, ahi, j + k, bhi)] else []))
                  (matching_blocks @ [(i, j, k)])
           else mb_loop a b b2j (butlast queue) matching_blocks))"
  by pat_completeness auto
termination
proof (relation "measure (\<lambda>(a, b, b2j, queue, matching_blocks). qweight queue)", goal_cases)
  case 1
  show ?case by simp
next
  case (2 a b b2j queue matching_blocks alo y ahi ya blo bhi i yc j k)
  then have w: "last queue = (alo, ahi, blo, bhi)"
    and m: "find_longest_match a b b2j alo ahi blo bhi = (i, j, k)" by simp_all
  have "best_ok alo blo ahi bhi (i, j, k)"
    using find_longest_match_bounds [of alo blo ahi bhi a b b2j] m by simp
  with 2 have "alo \<le> i" "i + k \<le> ahi" "0 < k" by (auto simp: best_ok_def)
  moreover have "qweight queue = qweight (butlast queue) + 2 * (ahi - alo) + 1"
    using 2 w by (intro qweight_pop) auto
  ultimately show ?case by (auto simp: qweight_snoc)
next
  case (3 a b b2j queue matching_blocks alo y ahi ya blo bhi i yc j k)
  then have w: "last queue = (alo, ahi, blo, bhi)" by simp
  have "qweight queue = qweight (butlast queue) + 2 * (ahi - alo) + 1"
    using 3 w by (intro qweight_pop) auto
  then show ?case by simp
qed

declare mb_loop.simps [simp del]

text \<open>
  The loop that collapses adjacent blocks: \<open>(i1, j1, k1)\<close> is the block to compare
  against, \<open>(0, 0, 0)\<close> at the start.
\<close>

fun collapse_loop :: "match list \<Rightarrow> match \<Rightarrow> match list \<Rightarrow> match \<times> match list" where
  "collapse_loop [] (i1, j1, k1) non_adjacent = ((i1, j1, k1), non_adjacent)"
| "collapse_loop ((i2, j2, k2) # rest) (i1, j1, k1) non_adjacent =
     (if i1 + k1 = i2 \<and> j1 + k1 = j2
      then collapse_loop rest (i1, j1, k1 + k2) non_adjacent
      else collapse_loop rest (i2, j2, k2)
             (if k1 \<noteq> 0 then non_adjacent @ [(i1, j1, k1)] else non_adjacent))"

text \<open>
  \<open>matching_blocks.sort()\<close> orders the triples as Python orders tuples,
  lexicographically; that is the order of \<open>nat \<times> nat \<times> nat\<close> here.
\<close>

definition get_matching_blocks :: "'a list \<Rightarrow> 'a list \<Rightarrow> match list" where
  "get_matching_blocks a b =
     (let la = length a; lb = length b;
          matching_blocks = sort (mb_loop a b (chain_b b) [(0, la, 0, lb)] [])
      in case collapse_loop matching_blocks (0, 0, 0) [] of
           ((i1, j1, k1), non_adjacent) \<Rightarrow>
             (if k1 \<noteq> 0 then non_adjacent @ [(i1, j1, k1)] else non_adjacent) @ [(la, lb, 0)])"

text \<open>The loop of \<open>get_opcodes\<close> over the matching blocks, from \<open>i = j = 0\<close>.\<close>

fun opcodes_loop :: "match list \<Rightarrow> nat \<Rightarrow> nat \<Rightarrow> opcode list \<Rightarrow> opcode list" where
  "opcodes_loop [] i j answer = answer"
| "opcodes_loop ((ai, bj, sz) # rest) i j answer =
     (let tag = (if i < ai \<and> j < bj then ''replace''
                 else if i < ai then ''delete''
                 else if j < bj then ''insert''
                 else []);
          answer1 = (if tag \<noteq> [] then answer @ [(tag, i, ai, j, bj)] else answer);
          i' = ai + sz; j' = bj + sz;
          answer2 = (if sz \<noteq> 0 then answer1 @ [(''equal'', ai, i', bj, j')] else answer1)
      in opcodes_loop rest i' j' answer2)"

definition get_opcodes :: "'a list \<Rightarrow> 'a list \<Rightarrow> opcode list" where
  "get_opcodes a b = opcodes_loop (get_matching_blocks a b) 0 0 []"

subsection \<open>The diff classifier: \<open>generate_word_diff\<close>\<close>

text \<open>
  The loop over the opcodes appends \<open>(word, status)\<close> pairs to the two lists. An opcode
  whose tag is none of the four strings adds nothing. \<open>range(i1, i2)\<close> is \<open>[i1..<i2]\<close>,
  empty when \<open>i2 \<le> i1\<close>; \<open>original_words[i]\<close> is read at the indices of an opcode
  only, which lie below the length of the list (\<open>get_opcodes_tiles\<close> below).
\<close>

type_synonym 'c diff = "('c list \<times> string) list"

definition tagged :: "'c list list \<Rightarrow> nat \<Rightarrow> nat \<Rightarrow> string \<Rightarrow> 'c diff" where
  "tagged ws i1 i2 status = map (\<lambda>i. (ws ! i, status)) [i1..<i2]"

fun classify :: "'c list list \<Rightarrow> 'c list list \<Rightarrow> opcode list \<Rightarrow> 'c diff \<times> 'c diff \<Rightarrow>
    'c diff \<times> 'c diff" where
  "classify original_words revised_words [] (original_diff, revised_diff) =
     (original_diff, revised_diff)"
| "classify original_words revised_words ((tag, i1, i2, j1, j2) # ops) (original_diff, revised_diff) =
     (if tag = ''equal''
      then classify original_words revised_words ops
             (original_diff @ tagged original_words i1 i2 ''unchanged'',
              revised_diff @ tagged revised_words j1 j2 ''unchanged'')
      else if tag = ''delete''
      then classify original_words revised_words ops
             (original_diff @ tagged original_words i1 i2 ''deleted'', revised_diff)
      else if tag = ''insert''
      then classify original_words revised_words ops
             (original_diff, revised_diff @ tagged revised_words j1 j2 ''added'')
      else if tag = ''replace''
      then classify original_words revised_words ops
             (original_diff @ tagged original_words i1 i2 ''modified'',
              revised_diff @ tagged revised_words j1 j2 ''modified'')
      else classify original_words revised_words ops (original_diff, revised_diff))"

definition generate_word_diff :: "('c \<Rightarrow> bool) \<Rightarrow> 'c list \<Rightarrow> 'c list \<Rightarrow> 'c diff \<times> 'c diff" where
  "generate_word_diff sp original revised =
     (let original_words = findall sp original;
          revised_words = findall sp revised
      in classify original_words revised_words (get_opcodes original_words revised_words) ([], []))"

text \<open>
  The counts of the change summary:
  \<open>sum(1 for _, status in diff if status == wanted)\<close>.
\<close>

definition count_status :: "string \<Rightarrow> 'c diff \<Rightarrow> nat" where
  "count_status wanted diff_data = length (filter (\<lambda>(word, status). status = wanted) diff_data)"

text \<open>The three counts of the change summary (lines 198 to 200 of the script).\<close>

definition added_count :: "'c diff \<Rightarrow> nat" where
  "added_count revised_diff = count_status ''added'' revised_diff"

definition deleted_count :: "'c diff \<Rightarrow> nat" where
  "deleted_count original_diff = count_status ''deleted'' original_diff"

definition modified_count :: "'c diff \<Rightarrow> nat" where
  "modified_count revised_diff = count_status ''modified'' revised_diff"

subsection \<open>The results section of the Streamlit script\<close>

text \<open>\<open>str(n)\<close> for a count: the decimal digits of a natural number.\<close>

fun str_nat :: "nat \<Rightarrow> string" where
  "str_nat n =
     (if n < 10 then [char_of (48 + n)]
      else str_nat (n div 10) @ [char_of (48 + n mod 10)])"

declare str_nat.simps [simp del]

definition nl :: string where
  "nl = [CHR 0x0A]"

text \<open>
  The f-string of the comparison report (lines 242 to 253 of the script), as a function
  of the variables it reads.
\<close>

definition comparison_report :: "string \<Rightarrow> string \<Rightarrow> string \<Rightarrow> string diff \<Rightarrow> string diff \<Rightarrow> string" where
  "comparison_report original_text assisted_text mode original_diff revised_diff =
     ''ORIGINAL TEXT:'' @ nl @
     original_text @ nl @
     nl @
     ''REVISED TEXT:'' @ nl @
     assisted_text @ nl @
     nl @
     ''CHANGES SUMMARY:'' @ nl @
     ''- Mode used: '' @ mode @ nl @
     ''- Added words: '' @ str_nat (count_status ''added'' revised_diff) @ nl @
     ''- Modified words: '' @ str_nat (count_status ''modified'' revised_diff) @ nl @
     ''- Deleted words: '' @ str_nat (count_status ''deleted'' original_diff) @ nl"

text \<open>
  The part of the script that runs when a result is in the session state (lines 148 to
  260), reduced to what the change summary shows and what the report holds. The change
  summary is drawn only when the two texts differ: \<open>metrics\<close> is then
  \<open>(added_count, modified_count, deleted_count)\<close>, and \<open>None\<close> stands for the
  "No changes detected" message. After the summary, lines 219 and 220 assign
  \<open>original_diff = []\<close> and \<open>revised_diff = []\<close>, and the report is built from these.
\<close>

definition results_section :: "string \<Rightarrow> string \<Rightarrow> string \<Rightarrow> (nat \<times> nat \<times> nat) option \<times> string" where
  "results_section original_text assisted_text mode =
     (let metrics =
            (if original_text \<noteq> assisted_text
             then (case generate_word_diff isspace original_text assisted_text of
                     (original_diff, revised_diff) \<Rightarrow>
                       Some (added_count revised_diff, modified_count revised_diff,
                             deleted_count original_diff))
             else None);
          original_diff = [];
          revised_diff = []
      in (metrics, comparison_report original_text assisted_text mode original_diff revised_diff))"

subsection \<open>The Assist Gateway: \<open>POST /assist\<close>\<close>

text \<open>
  \<open>str.strip()\<close> removes the whitespace characters at both ends.
\<close>

definition strip :: "string \<Rightarrow> string" where
  "strip s = rev (dropWhile isspace (rev (dropWhile isspace s)))"

record AssistRequest =
  request_text :: string
  request_mode :: string
  \<comment> \<open>the fields \<open>text\<close> and \<open>mode\<close>\<close>

datatype http_exception = HTTPException nat string
  \<comment> \<open>\<open>HTTPException(status_code, detail)\<close>\<close>

text \<open>
  What the gateway sends and what comes back. The handler reaches the inference backend
  through \<open>requests.post\<close>, which either raises (connection refused, timeout after 90
  seconds: \<open>Raises\<close>, with \<open>str(e)\<close>) or returns a response. Of the response the code
  reads the status, through \<open>raise_for_status\<close>, and the body, through \<open>json()\<close>: the
  body is not JSON (\<open>json()\<close> raises, with \<open>str(e)\<close>), or it is a JSON object, or
  another JSON value (subscripting it with \<open>"response"\<close> raises a \<open>TypeError\<close>, with
  \<open>str(e)\<close>). A field of the object is a string or another value (\<open>strip\<close> on it
  raises an \<open>AttributeError\<close>, with \<open>str(e)\<close>).
\<close>

record ollama_request =
  model :: string
  prompt :: string
  stream :: bool

datatype jvalue = JString string | JNotString string

datatype body = NotJSON string | JSONObject "string \<rightharpoonup> jvalue" | JSONOther string

record response =
  status_code :: nat
  reason :: string
  body :: body

datatype post_result = Raises string | Returns response

type_synonym backend = "ollama_request \<Rightarrow> post_result"

definition url :: string where
  "url = ''http://localhost:11434/api/generate''"

text \<open>
  \<open>Response.raise_for_status()\<close> of the \<open>requests\<close> library raises an \<open>HTTPError\<close> for
  the statuses 400 to 599 and for no other status; the result is the message of the
  error, if one is raised.
\<close>

definition raise_for_status :: "response \<Rightarrow> string option" where
  "raise_for_status res =
     (if 400 \<le> status_code res \<and> status_code res < 500
      then Some (str_nat (status_code res) @ '' Client Error: '' @ reason res @ '' for url: '' @ url)
      else if 500 \<le> status_code res \<and> status_code res < 600
      then Some (str_nat (status_code res) @ '' Server Error: '' @ reason res @ '' for url: '' @ url)
      else None)"

text \<open>\<open>str(KeyError('response'))\<close> is the key in quotes.\<close>

definition key_error_response :: string where
  "key_error_response = [CHR 0x27] @ ''response'' @ [CHR 0x27]"

text \<open>
  \<open>query_ollama\<close>: the result is \<open>Inl\<close> with \<open>str(e)\<close> of the exception raised, or
  \<open>Inr\<close> with the value of the \<open>response\<close> field; beside it, the list of the requests
  sent.
\<close>

definition query_ollama :: "backend \<Rightarrow> string \<Rightarrow> (string + jvalue) \<times> ollama_request list" where
  "query_ollama backend prompt_text =
     (let req = \<lparr>model = ''llama3'', prompt = prompt_text, stream = False\<rparr>
      in (case backend req of
            Raises msg \<Rightarrow> Inl msg
          | Returns res \<Rightarrow>
              (case raise_for_status res of
                 Some msg \<Rightarrow> Inl msg
               | None \<Rightarrow>
                   (case body res of
                      NotJSON msg \<Rightarrow> Inl msg
                    | JSONOther msg \<Rightarrow> Inl msg
                    | JSONObject d \<Rightarrow>
                        (case d ''response'' of
                           None \<Rightarrow> Inl key_error_response
                         | Some v \<Rightarrow> Inr v))),
          [req]))"

definition grammar_prompt :: string where
  "grammar_prompt =
     ''Correct the grammar, spelling, and punctuation in the following text. '' @
     ''Do **not** change the style, tone, vocabulary, structure, or meaning. '' @
     ''Respond with **only** the corrected text.'' @ nl @ nl"

definition full_prompt :: string where
  "full_prompt =
     ''Improve the clarity, style and academic tone of the following text. '' @
     ''Do **not** change the meaning and the language. '' @
     ''Respond with the corrected text **only**.'' @ nl @ nl"

text \<open>
  The handler \<open>assist_report\<close>: \<open>Inl\<close> is the \<open>HTTPException\<close> raised, \<open>Inr\<close> the
  dictionary returned; beside it, the requests sent to the inference backend. The
  \<open>try\<close> block catches every exception of \<open>query_ollama\<close> and of \<open>response.strip()\<close>.
\<close>

definition assist_report :: "backend \<Rightarrow> AssistRequest \<Rightarrow>
    (http_exception + (string \<times> string) list) \<times> ollama_request list" where
  "assist_report backend data =
     (let original_text = strip (request_text data)
      in if original_text = []
         then (Inl (HTTPException 422 ''Empty text input.''), [])
         else let prompt_text = (if request_mode data = ''grammar''
                                 then grammar_prompt @ original_text
                                 else full_prompt @ original_text)
              in (case query_ollama backend prompt_text of
                    (Inl msg, sent) \<Rightarrow> (Inl (HTTPException 500 (''LLM error: '' @ msg)), sent)
                  | (Inr (JString response), sent) \<Rightarrow>
                      (Inr [(''assisted_text'', strip response)], sent)
                  | (Inr (JNotString msg), sent) \<Rightarrow>
                      (Inl (HTTPException 500 (''LLM error: '' @ msg)), sent)))"

section \<open>Notions used to state and to prove the properties\<close>

subsection \<open>Notions of the statements\<close>

text \<open>
  The two classes of token, a non-empty run of whitespace characters and a non-empty run
  of other characters, and a token list in which the class changes from each token to
  the next.
\<close>

definition all_space :: "('c \<Rightarrow> bool) \<Rightarrow> 'c list \<Rightarrow> bool" where
  "all_space sp tok = (tok \<noteq> [] \<and> list_all sp tok)"

definition all_word :: "('c \<Rightarrow> bool) \<Rightarrow> 'c list \<Rightarrow> bool" where
  "all_word sp tok = (tok \<noteq> [] \<and> list_all (\<lambda>c. \<not> sp c) tok)"

fun alternating :: "('c \<Rightarrow> bool) \<Rightarrow> 'c list list \<Rightarrow> bool" where
  "alternating sp (t # u # ts) = (all_space sp t \<noteq> all_space sp u \<and> alternating sp (u # ts))"
| "alternating sp ts = True"

text \<open>The original-side range \<open>[i1, i2)\<close> and the revised-side range \<open>[j1, j2)\<close> of an opcode.\<close>

fun a_range :: "opcode \<Rightarrow> nat \<times> nat" where
  "a_range (tag, i1, i2, j1, j2) = (i1, i2)"

fun b_range :: "opcode \<Rightarrow> nat \<times> nat" where
  "b_range (tag, i1, i2, j1, j2) = (j1, j2)"

text \<open>
  \<open>tiles rs lo hi\<close>: the half-open ranges \<open>rs\<close>, in their order, partition \<open>[lo, hi)\<close>:
  the first starts at \<open>lo\<close>, each starts where the one before it ends, none runs
  backwards, and the last ends at \<open>hi\<close>.
\<close>

fun tiles :: "(nat \<times> nat) list \<Rightarrow> nat \<Rightarrow> nat \<Rightarrow> bool" where
  "tiles [] lo hi = (lo = hi)"
| "tiles ((l, r) # rs) lo hi = (l = lo \<and> l \<le> r \<and> tiles rs r hi)"

text \<open>
  The number of tokens in each range, \<open>len(range(i1, i2))\<close> and \<open>len(range(j1, j2))\<close>.
\<close>

fun a_len :: "opcode \<Rightarrow> nat" where
  "a_len (tag, i1, i2, j1, j2) = i2 - i1"

fun b_len :: "opcode \<Rightarrow> nat" where
  "b_len (tag, i1, i2, j1, j2) = j2 - j1"

text \<open>
  \<open>covered len tags ops\<close>: the number of tokens in the spans (\<open>a_len\<close> for the original
  side, \<open>b_len\<close> for the revised side) of the opcodes whose tag is one of \<open>tags\<close>.
\<close>

definition covered :: "(opcode \<Rightarrow> nat) \<Rightarrow> string list \<Rightarrow> opcode list \<Rightarrow> nat" where
  "covered len tags ops = sum_list (map len (filter (\<lambda>op. fst op \<in> set tags) ops))"

text \<open>The request that the handler sends for \<open>data\<close>, when it sends one.\<close>

definition sent_request :: "AssistRequest \<Rightarrow> ollama_request" where
  "sent_request data =
     \<lparr>model = ''llama3'',
      prompt = (if request_mode data = ''grammar'' then grammar_prompt else full_prompt) @
               strip (request_text data),
      stream = False\<rparr>"

subsection \<open>Notions of the proofs\<close>

text \<open>
  A window \<open>(alo, ahi, blo, bhi)\<close> of the queue and a block \<open>(i, j, k)\<close> both stand for a
  rectangle of index pairs. Throughout the queue loop the rectangles of the queue and of
  the blocks found so far lie pairwise apart: one ends, on both axes, before the other
  starts.
\<close>

type_synonym window = "nat \<times> nat \<times> nat \<times> nat"

definition block_rect :: "match \<Rightarrow> window" where
  "block_rect m = (case m of (i, j, k) \<Rightarrow> (i, i + k, j, j + k))"

definition before :: "window \<Rightarrow> window \<Rightarrow> bool" where
  "before r r' = (case r of (al, ah, bl, bh) \<Rightarrow> case r' of (al', ah', bl', bh') \<Rightarrow>
     ah \<le> al' \<and> bh \<le> bl')"

definition apart :: "window \<Rightarrow> window \<Rightarrow> bool" where
  "apart r r' = (before r r' \<or> before r' r)"

definition inside :: "window \<Rightarrow> window \<Rightarrow> bool" where
  "inside R r = (case R of (Al, Ah, Bl, Bh) \<Rightarrow> case r of (al, ah, bl, bh) \<Rightarrow>
     Al \<le> al \<and> ah \<le> Ah \<and> Bl \<le> bl \<and> bh \<le> Bh)"

definition mb_inv :: "window \<Rightarrow> window list \<Rightarrow> match list \<Rightarrow> bool" where
  "mb_inv W queue blocks =
     (sorted_wrt apart (queue @ map block_rect blocks) \<and>
      (\<forall>r \<in> set queue. inside W r) \<and>
      (\<forall>m \<in> set blocks. inside W (block_rect m) \<and> 0 < snd (snd m)))"

text \<open>
  \<open>chained i j ms\<close>: read from position \<open>(i, j)\<close>, each block of \<open>ms\<close> starts at or after
  the end of the one before it, on both axes. \<open>ends i j ms\<close> is the position after the
  last block.
\<close>

fun chained :: "nat \<Rightarrow> nat \<Rightarrow> match list \<Rightarrow> bool" where
  "chained i j [] = True"
| "chained i j ((ai, bj, sz) # ms) = (i \<le> ai \<and> j \<le> bj \<and> chained (ai + sz) (bj + sz) ms)"

fun ends :: "nat \<Rightarrow> nat \<Rightarrow> match list \<Rightarrow> nat \<times> nat" where
  "ends i j [] = (i, j)"
| "ends i j ((ai, bj, sz) # ms) = ends (ai + sz) (bj + sz) ms"

text \<open>What one opcode adds to each of the two lists.\<close>

definition original_part :: "'c list list \<Rightarrow> opcode \<Rightarrow> 'c diff" where
  "original_part ws op = (case op of (tag, i1, i2, j1, j2) \<Rightarrow>
     if tag = ''equal'' then tagged ws i1 i2 ''unchanged''
     else if tag = ''delete'' then tagged ws i1 i2 ''deleted''
     else if tag = ''replace'' then tagged ws i1 i2 ''modified''
     else [])"

definition revised_part :: "'c list list \<Rightarrow> opcode \<Rightarrow> 'c diff" where
  "revised_part ws op = (case op of (tag, i1, i2, j1, j2) \<Rightarrow>
     if tag = ''equal'' then tagged ws j1 j2 ''unchanged''
     else if tag = ''insert'' then tagged ws j1 j2 ''added''
     else if tag = ''replace'' then tagged ws j1 j2 ''modified''
     else [])"

text \<open>
  Every opcode of \<open>get_opcodes\<close> carries one of the four tags; an \<open>insert\<close> covers
  nothing of \<open>a\<close> and a \<open>delete\<close> nothing of \<open>b\<close>.
\<close>

definition opcode_ok :: "opcode \<Rightarrow> bool" where
  "opcode_ok op = (case op of (tag, i1, i2, j1, j2) \<Rightarrow>
     (tag = ''replace'' \<or> tag = ''delete'' \<and> j2 \<le> j1 \<or> tag = ''insert'' \<and> i2 \<le> i1 \<or>
      tag = ''equal''))"

text \<open>
  What \<open>b2j\<close> holds for an element that is one of its keys: the indices of the element
  in \<open>b\<close>, in increasing order.
\<close>

definition indices_of :: "'a list \<Rightarrow> 'a \<Rightarrow> nat list" where
  "indices_of b elt = filter (\<lambda>j. b ! j = elt) [0..<length b]"

text \<open>
  \<open>run_len np x\<close>: how many positions directly before \<open>x\<close> satisfy \<open>np\<close>, without a
  break. With \<open>np\<close> the positions whose element is still a key of \<open>b2j\<close>, this is the
  length that \<open>j2len\<close> records on the diagonal.
\<close>

primrec run_len :: "(nat \<Rightarrow> bool) \<Rightarrow> nat \<Rightarrow> nat" where
  "run_len np 0 = 0"
| "run_len np (Suc x) = (if np x then run_len np x + 1 else 0)"

text \<open>
  The invariant of the outer loop of \<open>find_longest_match\<close> when a sequence is matched
  against itself, over its whole length: before row \<open>lo\<close>, no entry of \<open>j2len\<close> exceeds
  the run length on the diagonal, the entry for the diagonal is that run length, and the
  best match so far lies on the diagonal and is at least as long as every run seen.
\<close>

definition nonpopular :: "'a list \<Rightarrow> nat \<Rightarrow> bool" where
  "nonpopular a x = (chain_b a (a ! x) \<noteq> None)"

definition diag_j2len :: "'a list \<Rightarrow> nat \<Rightarrow> (int \<rightharpoonup> nat) \<Rightarrow> bool" where
  "diag_j2len a lo m =
     ((\<forall>j < length a. dict_get m (int j - 1) 0 \<le> run_len (nonpopular a) lo \<and>
                       dict_get m (int j - 1) 0 \<le> run_len (nonpopular a) j) \<and>
      (lo < length a \<longrightarrow> dict_get m (int lo - 1) 0 = run_len (nonpopular a) lo))"

definition diag_best :: "'a list \<Rightarrow> nat \<Rightarrow> match \<Rightarrow> bool" where
  "diag_best a lo best = (case best of (besti, bestj, bestsize) \<Rightarrow>
     besti = bestj \<and> (\<forall>x \<le> lo. run_len (nonpopular a) x \<le> bestsize) \<and> besti + bestsize \<le> lo)"

section \<open>Properties of the tokenizer\<close>

lemma match_token_total: "s \<noteq> [] \<Longrightarrow> \<exists>tok rest. match_token sp s = Some (tok, rest)"
  by (cases s) (auto simp: match_token_def match_plus_def split: option.splits)

lemma match_token_append: "match_token sp s = Some (tok, rest) \<Longrightarrow> tok @ rest = s"
  by (auto simp: match_token_def match_plus_def split: option.splits if_splits)

lemma match_token_nonempty: "match_token sp s = Some (tok, rest) \<Longrightarrow> tok \<noteq> []"
  by (auto simp: match_token_def match_plus_def split: option.splits if_splits)

lemma match_token_class:
  "match_token sp s = Some (tok, rest) \<Longrightarrow> \<forall>c \<in> set tok. sp c = sp (hd tok)"
proof -
  have same: "\<forall>c \<in> set (takeWhile P s). P c = P (hd (takeWhile P s))" for P
    by (cases s) (auto dest: set_takeWhileD)
  assume "match_token sp s = Some (tok, rest)"
  then consider "tok = takeWhile (\<lambda>c. \<not> sp c) s" | "tok = takeWhile sp s"
    by (auto simp: match_token_def match_plus_def split: option.splits if_splits)
  then show ?thesis
  proof cases
    case 1
    with same [of "\<lambda>c. \<not> sp c"] show ?thesis by simp
  next
    case 2
    with same [of sp] show ?thesis by simp
  qed
qed

lemma match_token_maximal:
  "match_token sp s = Some (tok, rest) \<Longrightarrow> rest \<noteq> [] \<Longrightarrow> sp (hd rest) \<noteq> sp (hd tok)"
proof -
  have stop: "dropWhile P s \<noteq> [] \<Longrightarrow> \<not> P (hd (dropWhile P s))" for P
    by (metis hd_dropWhile)
  have start: "takeWhile P s \<noteq> [] \<Longrightarrow> P (hd (takeWhile P s))" for P
    by (cases s) (auto split: if_splits)
  assume m: "match_token sp s = Some (tok, rest)" and r: "rest \<noteq> []"
  from m consider
      "tok = takeWhile (\<lambda>c. \<not> sp c) s" "rest = dropWhile (\<lambda>c. \<not> sp c) s" "tok \<noteq> []"
    | "tok = takeWhile sp s" "rest = dropWhile sp s" "tok \<noteq> []"
    by (auto simp: match_token_def match_plus_def split: option.splits if_splits)
  then show ?thesis
  proof cases
    case 1
    with r stop [of "\<lambda>c. \<not> sp c"] start [of "\<lambda>c. \<not> sp c"] show ?thesis by auto
  next
    case 2
    with r stop [of sp] start [of sp] show ?thesis by auto
  qed
qed

lemma findall_Nil [simp]: "findall sp [] = []"
  by (simp add: findall.simps [of sp "[]"])

lemma findall_nonempty:
  "s \<noteq> [] \<Longrightarrow> \<exists>tok rest. match_token sp s = Some (tok, rest) \<and> findall sp s = tok # findall sp rest"
proof -
  assume ne: "s \<noteq> []"
  then obtain tok rest where m: "match_token sp s = Some (tok, rest)"
    using match_token_total by blast
  have "findall sp s = tok # findall sp rest"
    by (subst findall.simps) (simp add: ne m)
  with m show ?thesis by blast
qed

lemma findall_hd:
  "s \<noteq> [] \<Longrightarrow> findall sp s \<noteq> [] \<and> hd (hd (findall sp s)) = hd s"
proof -
  assume "s \<noteq> []"
  then obtain tok rest where m: "match_token sp s = Some (tok, rest)"
    and f: "findall sp s = tok # findall sp rest"
    using findall_nonempty by blast
  from m have "tok \<noteq> []" by (rule match_token_nonempty)
  moreover from m have "tok @ rest = s" by (rule match_token_append)
  ultimately have "hd tok = hd s" by (metis hd_append2)
  with f show ?thesis by simp
qed

lemma uniform_class:
  assumes "tok \<noteq> []" and "\<forall>c \<in> set tok. sp c = sp (hd tok)"
  shows "all_space sp tok = sp (hd tok)" and "all_word sp tok = (\<not> sp (hd tok))"
proof -
  from assms(1) have mem: "hd tok \<in> set tok" by simp
  have "list_all sp tok = sp (hd tok)"
    unfolding list_all_iff using assms(2) mem by blast
  with assms(1) show "all_space sp tok = sp (hd tok)" by (simp add: all_space_def)
  have "list_all (\<lambda>c. \<not> sp c) tok = (\<not> sp (hd tok))"
    unfolding list_all_iff using assms(2) mem by blast
  with assms(1) show "all_word sp tok = (\<not> sp (hd tok))" by (simp add: all_word_def)
qed

lemma findall_classes:
  "list_all (\<lambda>tok. all_space sp tok \<or> all_word sp tok) (findall sp s) \<and>
   list_all (\<lambda>tok. all_space sp tok = sp (hd tok)) (findall sp s) \<and>
   alternating sp (findall sp s)"
proof (induction sp s rule: findall.induct)
  case (1 sp s)
  show ?case
  proof (cases "s = []")
    case True
    then show ?thesis by simp
  next
    case False
    then obtain tok rest where m: "match_token sp s = Some (tok, rest)"
      and f: "findall sp s = tok # findall sp rest"
      using findall_nonempty by blast
    from m have ne: "tok \<noteq> []" by (rule match_token_nonempty)
    from m have un: "\<forall>c \<in> set tok. sp c = sp (hd tok)" by (rule match_token_class)
    note cls = uniform_class [OF ne un]
    note ih = "1.IH"(2) [OF False m refl]
    from ih have ih1: "list_all (\<lambda>tok. all_space sp tok \<or> all_word sp tok) (findall sp rest)"
      by (rule conjunct1)
    from ih have ih2: "list_all (\<lambda>tok. all_space sp tok = sp (hd tok)) (findall sp rest)"
      by (rule conjunct1 [OF conjunct2])
    from ih have ih3: "alternating sp (findall sp rest)"
      by (rule conjunct2 [OF conjunct2])
    have alt: "alternating sp (tok # findall sp rest)"
    proof (cases "rest = []")
      case True
      then show ?thesis by simp
    next
      case nonempty: False
      from findall_hd [OF nonempty, of sp] obtain u us where u: "findall sp rest = u # us"
        and hu: "hd u = hd rest"
        by (cases "findall sp rest") auto
      from ih2 u have "all_space sp u = sp (hd u)" by simp
      moreover from match_token_maximal [OF m nonempty] have "sp (hd rest) \<noteq> sp (hd tok)" .
      ultimately have "all_space sp tok \<noteq> all_space sp u" using cls(1) hu by simp
      with ih3 u show ?thesis by simp
    qed
    have "all_space sp tok \<or> all_word sp tok" using cls by simp
    moreover have "all_space sp tok = sp (hd tok)" using cls by simp
    ultimately show ?thesis unfolding f using ih1 ih2 alt by simp
  qed
qed

text \<open>
  Claim C1. Tokenizer round trip: for every string \<open>s\<close>, concatenating the tokens that
  \<open>re.findall(r'\S+|\s+', s)\<close> returns gives \<open>s\<close> back, character for character;
  the empty string has no tokens.
\<close>

theorem tokenizer_round_trip: "concat (findall sp s) = s \<and> findall sp [] = []"
proof
  show "concat (findall sp s) = s"
  proof (induction sp s rule: findall.induct)
    case (1 sp s)
    show ?case
    proof (cases "s = []")
      case True
      then show ?thesis by simp
    next
      case False
      then obtain tok rest where m: "match_token sp s = Some (tok, rest)"
        and f: "findall sp s = tok # findall sp rest"
        using findall_nonempty by blast
      from "1.IH"(2) [OF False m refl] match_token_append [OF m] f show ?thesis by simp
    qed
  qed
  show "findall sp [] = []" by simp
qed

text \<open>
  Claim C9. Tokenizer partition: every token that \<open>re.findall(r'\S+|\s+', s)\<close> returns
  is a non-empty run of whitespace characters only or of non-whitespace characters only,
  and two neighbouring tokens are never of the same class.
\<close>

theorem tokenizer_partition:
  "list_all (\<lambda>tok. all_space sp tok \<or> all_word sp tok) (findall sp s) \<and>
   alternating sp (findall sp s)"
  using findall_classes [of sp s] by simp

section \<open>The matching blocks are ordered and disjoint\<close>

lemma apart_sym: "apart r r' \<Longrightarrow> apart r' r"
  by (auto simp: apart_def)

lemma apart_inside: "apart R X \<Longrightarrow> inside R Y \<Longrightarrow> apart Y X"
  by (cases R; cases X; cases Y) (auto simp: apart_def before_def inside_def)

lemma apart_inside': "apart X R \<Longrightarrow> inside R Y \<Longrightarrow> apart X Y"
  using apart_inside apart_sym by blast

lemma inside_trans: "inside W R \<Longrightarrow> inside R Y \<Longrightarrow> inside W Y"
  by (cases R; cases W; cases Y) (auto simp: inside_def)

lemma mb_inv_pop:
  assumes "mb_inv W (q @ [R]) blocks"
  shows "mb_inv W q blocks"
  using assms by (auto simp: mb_inv_def sorted_wrt_append)

lemma mb_inv_replace:
  assumes inv: "mb_inv W (q @ [R]) blocks"
    and new: "\<forall>r \<in> set news. inside R r" "inside R (block_rect m)" "0 < snd (snd m)"
    and sep: "sorted_wrt apart (news @ [block_rect m])"
  shows "mb_inv W (q @ news) (blocks @ [m])"
proof -
  from inv have old: "sorted_wrt apart q" "sorted_wrt apart (map block_rect blocks)"
    and qb: "\<forall>x \<in> set q. \<forall>y \<in> set blocks. apart x (block_rect y)"
    and qR: "\<forall>x \<in> set q. apart x R"
    and Rb: "\<forall>y \<in> set blocks. apart R (block_rect y)"
    and WR: "inside W R" and Wq: "\<forall>r \<in> set q. inside W r"
    and Wb: "\<forall>m \<in> set blocks. inside W (block_rect m) \<and> 0 < snd (snd m)"
    by (auto simp: mb_inv_def sorted_wrt_append)
  from sep have s1: "sorted_wrt apart news" and s2: "\<forall>x \<in> set news. apart x (block_rect m)"
    by (auto simp: sorted_wrt_append)
  have a1: "\<forall>x \<in> set q. \<forall>y \<in> set news. apart x y"
    using qR new(1) apart_inside' by blast
  have a2: "\<forall>x \<in> set q. apart x (block_rect m)"
    using qR new(2) apart_inside' by blast
  have a3: "\<forall>x \<in> set news. \<forall>y \<in> set blocks. apart x (block_rect y)"
    using Rb new(1) apart_inside by blast
  have a4: "\<forall>y \<in> set blocks. apart (block_rect y) (block_rect m)"
    using Rb new(2) apart_inside apart_sym by blast
  have "sorted_wrt apart ((q @ news) @ map block_rect (blocks @ [m]))"
    using old s1 s2 a1 a2 a3 a4 qb by (auto simp: sorted_wrt_append)
  moreover have "\<forall>r \<in> set news. inside W r"
    using new(1) WR inside_trans by blast
  then have "\<forall>r \<in> set (q @ news). inside W r"
    using Wq by auto
  moreover have "inside W (block_rect m)"
    using new(2) WR inside_trans by blast
  then have "\<forall>x \<in> set (blocks @ [m]). inside W (block_rect x) \<and> 0 < snd (snd x)"
    using Wb new(3) by auto
  ultimately show ?thesis unfolding mb_inv_def by blast
qed

lemma mb_inv_step:
  assumes inv: "mb_inv W (q @ [(alo, ahi, blo, bhi)]) blocks"
    and ok: "best_ok alo blo ahi bhi (i, j, k)" and k: "k \<noteq> 0"
  shows "mb_inv W
           ((if alo < i \<and> blo < j then q @ [(alo, i, blo, j)] else q) @
            (if i + k < ahi \<and> j + k < bhi then [(i + k, ahi, j + k, bhi)] else []))
           (blocks @ [(i, j, k)])"
proof -
  from ok k have b: "alo \<le> i" "blo \<le> j" "i + k \<le> ahi" "j + k \<le> bhi"
    by (auto simp: best_ok_def)
  define news where "news =
    (if alo < i \<and> blo < j then [(alo, i, blo, j)] else []) @
    (if i + k < ahi \<and> j + k < bhi then [(i + k, ahi, j + k, bhi)] else [])"
  have eq: "(if alo < i \<and> blo < j then q @ [(alo, i, blo, j)] else q) @
            (if i + k < ahi \<and> j + k < bhi then [(i + k, ahi, j + k, bhi)] else []) = q @ news"
    by (simp add: news_def)
  have "\<forall>r \<in> set news. inside (alo, ahi, blo, bhi) r"
    using b by (auto simp: news_def inside_def)
  moreover have "inside (alo, ahi, blo, bhi) (block_rect (i, j, k))"
    using b by (simp add: inside_def block_rect_def)
  moreover have "0 < snd (snd (i, j, k))" using k by simp
  moreover have "sorted_wrt apart (news @ [block_rect (i, j, k)])"
    by (auto simp: news_def apart_def before_def block_rect_def)
  ultimately show ?thesis unfolding eq using inv by (intro mb_inv_replace)
qed

lemma mb_loop_inv:
  "mb_inv W queue blocks \<Longrightarrow> mb_inv W [] (mb_loop a b b2j queue blocks)"
proof (induction a b b2j queue blocks rule: mb_loop.induct)
  case (1 a b b2j queue matching_blocks)
  show ?case
  proof (cases "queue = []")
    case True
    with "1.prems" show ?thesis by (subst mb_loop.simps) simp
  next
    case False
    obtain alo ahi blo bhi where w: "last queue = (alo, ahi, blo, bhi)"
      by (cases "last queue") auto
    obtain i j k where m: "find_longest_match a b b2j alo ahi blo bhi = (i, j, k)"
      by (cases "find_longest_match a b b2j alo ahi blo bhi") auto
    from False w have q: "queue = butlast queue @ [(alo, ahi, blo, bhi)]"
      by (metis append_butlast_last_id)
    have ok: "best_ok alo blo ahi bhi (i, j, k)"
      using find_longest_match_bounds [of alo blo ahi bhi a b b2j] m by simp
    show ?thesis
    proof (cases "k = 0")
      case True
      from "1.prems" q have "mb_inv W (butlast queue) matching_blocks"
        using mb_inv_pop by metis
      from "1.IH"(2) [OF False w [symmetric] refl refl m [symmetric] refl _ this] True
      have "mb_inv W [] (mb_loop a b b2j (butlast queue) matching_blocks)" by simp
      then show ?thesis using False w m True by (subst mb_loop.simps) simp
    next
      case nz: False
      from "1.prems" q have "mb_inv W (butlast queue @ [(alo, ahi, blo, bhi)]) matching_blocks"
        by simp
      from mb_inv_step [OF this ok nz]
      have "mb_inv W
           ((if alo < i \<and> blo < j then butlast queue @ [(alo, i, blo, j)] else butlast queue) @
            (if i + k < ahi \<and> j + k < bhi then [(i + k, ahi, j + k, bhi)] else []))
           (matching_blocks @ [(i, j, k)])" .
      from "1.IH"(1) [OF False w [symmetric] refl refl m [symmetric] refl _ this] nz
      show ?thesis using False w m nz by (subst mb_loop.simps) simp
    qed
  qed
qed

text \<open>Sorting the blocks found puts them in the order of their rectangles.\<close>

lemma sorted_wrt_apart_distinct:
  "sorted_wrt apart (map block_rect ms) \<Longrightarrow> \<forall>m \<in> set ms. 0 < snd (snd m) \<Longrightarrow> distinct ms"
proof (induction ms)
  case Nil
  then show ?case by simp
next
  case (Cons m ms)
  have "\<not> apart (block_rect m) (block_rect m)"
    using Cons.prems(2) by (cases m) (auto simp: apart_def before_def block_rect_def)
  with Cons show ?case by auto
qed

lemma sorted_wrt_apart_pairs:
  "sorted_wrt apart (map block_rect ms) \<Longrightarrow> x \<in> set ms \<Longrightarrow> y \<in> set ms \<Longrightarrow> x \<noteq> y \<Longrightarrow>
   apart (block_rect x) (block_rect y)"
proof (induction ms)
  case Nil
  then show ?case by simp
next
  case (Cons m ms)
  from Cons.prems(1) have hd: "\<forall>z \<in> set ms. apart (block_rect m) (block_rect z)"
    and tl: "sorted_wrt apart (map block_rect ms)" by simp_all
  consider "x = m" "y \<in> set ms" | "y = m" "x \<in> set ms" | "x \<in> set ms" "y \<in> set ms"
    using Cons.prems(2,3,4) by auto
  then show ?case
  proof cases
    case 1
    with hd show ?thesis by blast
  next
    case 2
    with hd show ?thesis using apart_sym by blast
  next
    case 3
    with Cons.IH tl Cons.prems(4) show ?thesis by blast
  qed
qed

lemma sort_blocks_before:
  assumes "sorted_wrt apart (map block_rect ms)" and pos: "\<forall>m \<in> set ms. 0 < snd (snd m)"
  shows "sorted_wrt (\<lambda>x y. before (block_rect x) (block_rect y)) (sort ms)"
proof -
  have "distinct (sort ms)" using assms sorted_wrt_apart_distinct by simp
  then have strict: "sorted_wrt (<) (sort ms)"
    by (simp add: strict_sorted_iff)
  show ?thesis
  proof (rule sorted_wrt_mono_rel [OF _ strict])
    fix x y assume x: "x \<in> set (sort ms)" and y: "y \<in> set (sort ms)" and lt: "x < y"
    from lt have "x \<noteq> y" by simp
    with assms(1) x y have "apart (block_rect x) (block_rect y)"
      using sorted_wrt_apart_pairs by simp
    moreover have "\<not> before (block_rect y) (block_rect x)"
    proof
      assume "before (block_rect y) (block_rect x)"
      moreover from pos y have "0 < snd (snd y)" by simp
      ultimately have "fst y < fst x"
        by (cases x; cases y) (auto simp: before_def block_rect_def)
      with lt show False by (auto simp: less_prod_def)
    qed
    ultimately show "before (block_rect x) (block_rect y)" by (simp add: apart_def)
  qed
qed

lemma chained_append:
  "chained i j (xs @ ys) = (chained i j xs \<and> chained (fst (ends i j xs)) (snd (ends i j xs)) ys)"
  by (induction i j xs rule: chained.induct) auto

lemma ends_append:
  "ends i j (xs @ ys) = ends (fst (ends i j xs)) (snd (ends i j xs)) ys"
  by (induction i j xs rule: ends.induct) auto

lemma chained_start_le: "chained i j ms \<Longrightarrow> i' \<le> i \<Longrightarrow> j' \<le> j \<Longrightarrow> chained i' j' ms"
  by (cases ms) auto

lemma before_chained:
  "sorted_wrt (\<lambda>x y. before (block_rect x) (block_rect y)) ms \<Longrightarrow>
   \<forall>m \<in> set ms. i \<le> fst m \<and> j \<le> fst (snd m) \<Longrightarrow> chained i j ms"
proof (induction ms arbitrary: i j)
  case Nil
  then show ?case by simp
next
  case (Cons m ms)
  obtain ai bj sz where m: "m = (ai, bj, sz)" by (cases m) auto
  from Cons.prems(1) m have "\<forall>y \<in> set ms. ai + sz \<le> fst y \<and> bj + sz \<le> fst (snd y)"
    by (auto simp: before_def block_rect_def)
  moreover from Cons.prems(1) have "sorted_wrt (\<lambda>x y. before (block_rect x) (block_rect y)) ms"
    by simp
  ultimately have "chained (ai + sz) (bj + sz) ms" using Cons.IH by blast
  with Cons.prems(2) m show ?case by simp
qed

lemma ends_bounded:
  "\<forall>m \<in> set ms. inside (0, la, 0, lb) (block_rect m) \<Longrightarrow> i \<le> la \<Longrightarrow> j \<le> lb \<Longrightarrow>
   fst (ends i j ms) \<le> la \<and> snd (ends i j ms) \<le> lb"
proof (induction i j ms rule: ends.induct)
  case (1 i j)
  then show ?case by simp
next
  case (2 i j ai bj sz ms)
  then have "ai + sz \<le> la" "bj + sz \<le> lb" by (auto simp: inside_def block_rect_def)
  with 2 show ?case by simp
qed

lemma sorted_blocks_chained:
  assumes "mb_inv (0, la, 0, lb) [] blocks"
  shows "chained 0 0 (sort blocks @ [(la, lb, 0)])"
proof -
  from assms have ap: "sorted_wrt apart (map block_rect blocks)"
    and pos: "\<forall>m \<in> set blocks. 0 < snd (snd m)"
    and ins: "\<forall>m \<in> set blocks. inside (0, la, 0, lb) (block_rect m)"
    by (auto simp: mb_inv_def)
  have "chained 0 0 (sort blocks)"
    using sort_blocks_before [OF ap pos] by (intro before_chained) simp_all
  moreover have "fst (ends 0 0 (sort blocks)) \<le> la \<and> snd (ends 0 0 (sort blocks)) \<le> lb"
    using ins by (intro ends_bounded) simp_all
  ultimately show ?thesis by (simp add: chained_append)
qed

lemma chained_drop_empty:
  "chained i j (xs @ (ai, bj, 0) # ys) \<Longrightarrow> chained i j (xs @ ys)"
proof -
  assume m: "chained i j (xs @ (ai, bj, 0) # ys)"
  define ei ej where "ei = fst (ends i j xs)" and "ej = snd (ends i j xs)"
  from m have "chained i j xs" "ei \<le> ai" "ej \<le> bj" "chained ai bj ys"
    by (simp_all add: chained_append ei_def ej_def)
  then show ?thesis using chained_start_le by (simp add: chained_append ei_def ej_def)
qed

lemma collapse_loop_chained:
  "chained 0 0 (na @ (i1, j1, k1) # rest @ [s]) \<Longrightarrow>
   collapse_loop rest (i1, j1, k1) na = ((i1', j1', k1'), na') \<Longrightarrow>
   chained 0 0 ((if k1' \<noteq> 0 then na' @ [(i1', j1', k1')] else na') @ [s])"
proof (induction rest arbitrary: i1 j1 k1 na)
  case Nil
  then show ?case using chained_drop_empty [of 0 0 na i1 j1 "[s]"] by auto
next
  case (Cons m rest)
  obtain i2 j2 k2 where m: "m = (i2, j2, k2)" by (cases m) auto
  show ?case
  proof (cases "i1 + k1 = i2 \<and> j1 + k1 = j2")
    case True
    from True have eq: "i2 + k2 = i1 + (k1 + k2)" "j2 + k2 = j1 + (k1 + k2)" by simp_all
    from Cons.prems(1) m have "chained 0 0 (na @ (i1, j1, k1 + k2) # rest @ [s])"
      by (simp add: chained_append eq)
    moreover from Cons.prems(2) m True
    have "collapse_loop rest (i1, j1, k1 + k2) na = ((i1', j1', k1'), na')" by simp
    ultimately show ?thesis by (rule Cons.IH)
  next
    case False
    define na2 where "na2 = (if k1 \<noteq> 0 then na @ [(i1, j1, k1)] else na)"
    have "chained 0 0 (na2 @ (i2, j2, k2) # rest @ [s])"
    proof (cases "k1 = 0")
      case True
      with Cons.prems(1) m chained_drop_empty [of 0 0 na i1 j1 "(i2, j2, k2) # rest @ [s]"]
      show ?thesis by (simp add: na2_def)
    next
      case False
      with Cons.prems(1) m show ?thesis by (simp add: na2_def)
    qed
    moreover from Cons.prems(2) m False
    have "collapse_loop rest (i2, j2, k2) na2 = ((i1', j1', k1'), na')"
      by (auto simp: na2_def)
    ultimately show ?thesis by (rule Cons.IH)
  qed
qed

lemma get_matching_blocks_chained:
  "chained 0 0 (get_matching_blocks a b) \<and>
   ends 0 0 (get_matching_blocks a b) = (length a, length b)"
proof -
  define la lb where "la = length a" and "lb = length b"
  define blocks where "blocks = mb_loop a b (chain_b b) [(0, la, 0, lb)] []"
  obtain i1 j1 k1 na where c: "collapse_loop (sort blocks) (0, 0, 0) [] = ((i1, j1, k1), na)"
    by (cases "collapse_loop (sort blocks) (0, 0, 0) []") auto
  have gmb: "get_matching_blocks a b =
      (if k1 \<noteq> 0 then na @ [(i1, j1, k1)] else na) @ [(la, lb, 0)]"
    using c by (simp add: get_matching_blocks_def Let_def la_def lb_def blocks_def)
  have "mb_inv (0, la, 0, lb) [(0, la, 0, lb)] []"
    by (simp add: mb_inv_def inside_def)
  then have "mb_inv (0, la, 0, lb) [] blocks"
    unfolding blocks_def by (rule mb_loop_inv)
  then have "chained 0 0 (sort blocks @ [(la, lb, 0)])" by (rule sorted_blocks_chained)
  then have "chained 0 0 ([] @ (0, 0, 0) # sort blocks @ [(la, lb, 0)])" by simp
  from collapse_loop_chained [OF this c] gmb have "chained 0 0 (get_matching_blocks a b)" by simp
  moreover have "ends 0 0 (get_matching_blocks a b) = (la, lb)"
    unfolding gmb by (simp add: ends_append)
  ultimately show ?thesis by (simp add: la_def lb_def)
qed

section \<open>The opcodes tile both sequences\<close>

lemma tiles_snoc: "tiles (rs @ [(l, r)]) lo hi = (tiles rs lo l \<and> l \<le> r \<and> r = hi)"
  by (induction rs lo hi rule: tiles.induct) auto

lemma opcodes_loop_tiles:
  "chained i j ms \<Longrightarrow> tiles (map a_range answer) 0 i \<Longrightarrow> tiles (map b_range answer) 0 j \<Longrightarrow>
   tiles (map a_range (opcodes_loop ms i j answer)) 0 (fst (ends i j ms)) \<and>
   tiles (map b_range (opcodes_loop ms i j answer)) 0 (snd (ends i j ms))"
proof (induction ms i j answer rule: opcodes_loop.induct)
  case (1 i j answer)
  then show ?case by simp
next
  case (2 ai bj sz rest i j answer)
  define tag where "tag = (if i < ai \<and> j < bj then ''replace''
                 else if i < ai then ''delete''
                 else if j < bj then ''insert''
                 else [])"
  define answer1 where "answer1 = (if tag \<noteq> [] then answer @ [(tag, i, ai, j, bj)] else answer)"
  define answer2 where
    "answer2 = (if sz \<noteq> 0 then answer1 @ [(''equal'', ai, ai + sz, bj, bj + sz)] else answer1)"
  from "2.prems"(1) have le: "i \<le> ai" "j \<le> bj" and rest: "chained (ai + sz) (bj + sz) rest"
    by simp_all
  have gap: "tag = [] \<Longrightarrow> i = ai \<and> j = bj"
    using le by (auto simp: tag_def split: if_splits)
  have t1: "tiles (map a_range answer1) 0 ai" "tiles (map b_range answer1) 0 bj"
    using "2.prems"(2,3) le gap by (auto simp: answer1_def tiles_snoc)
  have t2: "tiles (map a_range answer2) 0 (ai + sz)" "tiles (map b_range answer2) 0 (bj + sz)"
    using t1 by (auto simp: answer2_def tiles_snoc)
  have "tiles (map a_range (opcodes_loop rest (ai + sz) (bj + sz) answer2)) 0
          (fst (ends (ai + sz) (bj + sz) rest)) \<and>
        tiles (map b_range (opcodes_loop rest (ai + sz) (bj + sz) answer2)) 0
          (snd (ends (ai + sz) (bj + sz) rest))"
    using "2.IH" [OF tag_def answer1_def refl refl answer2_def rest t2] .
  moreover have "opcodes_loop ((ai, bj, sz) # rest) i j answer =
      opcodes_loop rest (ai + sz) (bj + sz) answer2"
    by (simp add: Let_def tag_def answer1_def answer2_def)
  ultimately show ?case by simp
qed

lemma get_opcodes_tiles:
  "tiles (map a_range (get_opcodes a b)) 0 (length a) \<and>
   tiles (map b_range (get_opcodes a b)) 0 (length b)"
  using opcodes_loop_tiles [of 0 0 "get_matching_blocks a b" "[]"]
    get_matching_blocks_chained [of a b]
  by (simp add: get_opcodes_def)

text \<open>
  Claim C2. Aligner totality: for all token sequences \<open>a\<close> and \<open>b\<close>, the ranges
  \<open>[i1, i2)\<close> of the opcodes that the sequence matcher returns partition
  \<open>[0, len(a))\<close> and the ranges \<open>[j1, j2)\<close> partition \<open>[0, len(b))\<close>: in order, each
  starting where the one before it ends, with no gap and no overlap.
\<close>

theorem aligner_totality:
  "tiles (map a_range (get_opcodes a b)) 0 (length a) \<and>
   tiles (map b_range (get_opcodes a b)) 0 (length b)"
  by (rule get_opcodes_tiles)

section \<open>Properties of the classifier\<close>

lemma classify_parts:
  "classify ows rws ops (od, rd) =
     (od @ concat (map (original_part ows) ops), rd @ concat (map (revised_part rws) ops))"
proof (induction ops arbitrary: od rd)
  case Nil
  then show ?case by simp
next
  case (Cons op ops)
  obtain tag i1 i2 j1 j2 where op: "op = (tag, i1, i2, j1, j2)" by (cases op) auto
  show ?case unfolding op
    by (simp add: Cons.IH original_part_def revised_part_def)
qed

lemma generate_word_diff_parts:
  "generate_word_diff sp original revised =
     (concat (map (original_part (findall sp original))
                (get_opcodes (findall sp original) (findall sp revised))),
      concat (map (revised_part (findall sp revised))
                (get_opcodes (findall sp original) (findall sp revised))))"
  by (simp add: generate_word_diff_def Let_def classify_parts)

lemma original_part_statuses:
  "snd ` set (original_part ws op) \<subseteq> {''unchanged'', ''deleted'', ''modified''}"
  by (cases op) (auto simp: original_part_def tagged_def)

lemma revised_part_statuses:
  "snd ` set (revised_part ws op) \<subseteq> {''unchanged'', ''added'', ''modified''}"
  by (cases op) (auto simp: revised_part_def tagged_def)

lemma concat_statuses:
  "(\<And>op. snd ` set (f op) \<subseteq> S) \<Longrightarrow> snd ` set (concat (map f ops)) \<subseteq> S"
proof
  fix s assume sub: "\<And>op. snd ` set (f op) \<subseteq> S" and "s \<in> snd ` set (concat (map f ops))"
  then obtain op where "s \<in> snd ` set (f op)" by auto
  with sub show "s \<in> S" by blast
qed

text \<open>
  Claim C10. Side restriction: for every pair of input strings, the statuses of the
  original-side list that \<open>generate_word_diff\<close> returns are among \<open>unchanged\<close>,
  \<open>deleted\<close>, \<open>modified\<close> (never \<open>added\<close>), and the statuses of the revised-side
  list are among \<open>unchanged\<close>, \<open>added\<close>, \<open>modified\<close> (never \<open>deleted\<close>).
\<close>

theorem side_restriction:
  "snd ` set (fst (generate_word_diff sp original revised)) \<subseteq> {''unchanged'', ''deleted'', ''modified''} \<and>
   snd ` set (snd (generate_word_diff sp original revised)) \<subseteq> {''unchanged'', ''added'', ''modified''} \<and>
   ''added'' \<notin> snd ` set (fst (generate_word_diff sp original revised)) \<and>
   ''deleted'' \<notin> snd ` set (snd (generate_word_diff sp original revised))"
proof -
  let ?ows = "findall sp original" and ?rws = "findall sp revised"
  let ?ops = "get_opcodes ?ows ?rws"
  have o: "snd ` set (fst (generate_word_diff sp original revised)) \<subseteq> {''unchanged'', ''deleted'', ''modified''}"
    unfolding generate_word_diff_parts fst_conv
    by (rule concat_statuses) (rule original_part_statuses)
  have r: "snd ` set (snd (generate_word_diff sp original revised)) \<subseteq> {''unchanged'', ''added'', ''modified''}"
    unfolding generate_word_diff_parts snd_conv
    by (rule concat_statuses) (rule revised_part_statuses)
  have "''added'' \<notin> {''unchanged'', ''deleted'', ''modified''}" by simp
  with o have a: "''added'' \<notin> snd ` set (fst (generate_word_diff sp original revised))"
    by (rule contra_subsetD)
  have "''deleted'' \<notin> {''unchanged'', ''added'', ''modified''}" by simp
  with r have d: "''deleted'' \<notin> snd ` set (snd (generate_word_diff sp original revised))"
    by (rule contra_subsetD)
  from o r a d show ?thesis by (intro conjI)
qed

subsection \<open>Lengths and counts\<close>

lemma count_status_tagged:
  "count_status wanted (tagged ws i1 i2 status) = (if status = wanted then i2 - i1 else 0)"
  by (simp add: count_status_def tagged_def filter_map comp_def)

lemma count_status_Nil [simp]: "count_status wanted [] = 0"
  by (simp add: count_status_def)

lemma count_status_concat:
  "count_status wanted (concat xss) = sum_list (map (count_status wanted) xss)"
  by (induction xss) (simp_all add: count_status_def)

lemma sum_list_if_filter:
  "sum_list (map (\<lambda>x. if P x then f x else 0) xs) = sum_list (map f (filter P xs))"
  by (induction xs) simp_all

lemma count_parts:
  assumes "\<And>op. count_status wanted (part op) = (if fst op \<in> set tags then len op else 0)"
  shows "count_status wanted (concat (map part ops)) = covered len tags ops"
  by (simp add: count_status_concat comp_def assms sum_list_if_filter covered_def)

lemma length_parts:
  assumes "\<And>op. length (part op) = (if fst op \<in> set tags then len op else 0)"
  shows "length (concat (map part ops)) = covered len tags ops"
  by (simp add: length_concat comp_def assms sum_list_if_filter covered_def)

lemma original_part_length:
  "length (original_part ws op) = (if fst op \<in> set [''equal'', ''delete'', ''replace''] then a_len op else 0)"
  by (cases op) (simp add: original_part_def tagged_def)

lemma revised_part_length:
  "length (revised_part ws op) = (if fst op \<in> set [''equal'', ''insert'', ''replace''] then b_len op else 0)"
  by (cases op) (simp add: revised_part_def tagged_def)

lemma original_part_deleted:
  "count_status ''deleted'' (original_part ws op) = (if fst op \<in> set [''delete''] then a_len op else 0)"
  by (cases op) (simp add: original_part_def count_status_tagged)

lemma original_part_modified:
  "count_status ''modified'' (original_part ws op) = (if fst op \<in> set [''replace''] then a_len op else 0)"
  by (cases op) (simp add: original_part_def count_status_tagged)

lemma revised_part_added:
  "count_status ''added'' (revised_part ws op) = (if fst op \<in> set [''insert''] then b_len op else 0)"
  by (cases op) (simp add: revised_part_def count_status_tagged)

lemma revised_part_modified:
  "count_status ''modified'' (revised_part ws op) = (if fst op \<in> set [''replace''] then b_len op else 0)"
  by (cases op) (simp add: revised_part_def count_status_tagged)

lemma opcodes_loop_ok:
  "list_all opcode_ok answer \<Longrightarrow> list_all opcode_ok (opcodes_loop ms i j answer)"
proof (induction ms i j answer rule: opcodes_loop.induct)
  case (1 i j answer)
  then show ?case by simp
next
  case (2 ai bj sz rest i j answer)
  define tag where "tag = (if i < ai \<and> j < bj then ''replace''
                 else if i < ai then ''delete''
                 else if j < bj then ''insert''
                 else [])"
  define answer1 where "answer1 = (if tag \<noteq> [] then answer @ [(tag, i, ai, j, bj)] else answer)"
  define answer2 where
    "answer2 = (if sz \<noteq> 0 then answer1 @ [(''equal'', ai, ai + sz, bj, bj + sz)] else answer1)"
  have "tag \<noteq> [] \<Longrightarrow> opcode_ok (tag, i, ai, j, bj)"
    by (auto simp: tag_def opcode_ok_def split: if_splits)
  with "2.prems" have "list_all opcode_ok answer1" by (simp add: answer1_def)
  then have "list_all opcode_ok answer2" by (simp add: answer2_def opcode_ok_def)
  then have "list_all opcode_ok (opcodes_loop rest (ai + sz) (bj + sz) answer2)"
    using "2.IH" [OF tag_def answer1_def refl refl answer2_def] by simp
  moreover have "opcodes_loop ((ai, bj, sz) # rest) i j answer =
      opcodes_loop rest (ai + sz) (bj + sz) answer2"
    by (simp add: Let_def tag_def answer1_def answer2_def)
  ultimately show ?case by simp
qed

lemma get_opcodes_ok: "list_all opcode_ok (get_opcodes a b)"
  by (simp add: get_opcodes_def opcodes_loop_ok)

lemma tiles_a_total: "tiles (map a_range ops) lo hi \<Longrightarrow> lo + sum_list (map a_len ops) = hi"
proof (induction ops arbitrary: lo)
  case Nil
  then show ?case by simp
next
  case (Cons op ops)
  obtain tag i1 i2 j1 j2 where op: "op = (tag, i1, i2, j1, j2)" by (cases op) auto
  from Cons.prems op have "i1 = lo" "i1 \<le> i2" "tiles (map a_range ops) i2 hi" by simp_all
  with Cons.IH [of i2] op show ?case by simp
qed

lemma tiles_b_total: "tiles (map b_range ops) lo hi \<Longrightarrow> lo + sum_list (map b_len ops) = hi"
proof (induction ops arbitrary: lo)
  case Nil
  then show ?case by simp
next
  case (Cons op ops)
  obtain tag i1 i2 j1 j2 where op: "op = (tag, i1, i2, j1, j2)" by (cases op) auto
  from Cons.prems op have "j1 = lo" "j1 \<le> j2" "tiles (map b_range ops) j2 hi" by simp_all
  with Cons.IH [of j2] op show ?case by simp
qed

lemma covered_Cons:
  "covered len tags (op # ops) = (if fst op \<in> set tags then len op else 0) + covered len tags ops"
  by (simp add: covered_def)

lemma covered_a_all:
  "list_all opcode_ok ops \<Longrightarrow>
   covered a_len [''equal'', ''delete'', ''replace''] ops = sum_list (map a_len ops)"
proof (induction ops)
  case Nil
  then show ?case by (simp add: covered_def)
next
  case (Cons op ops)
  obtain tag i1 i2 j1 j2 where op: "op = (tag, i1, i2, j1, j2)" by (cases op) auto
  from Cons.prems op have "tag = ''replace'' \<or> tag = ''delete'' \<or> tag = ''insert'' \<and> i2 \<le> i1 \<or> tag = ''equal''"
    by (auto simp: opcode_ok_def)
  then have "(if fst op \<in> set [''equal'', ''delete'', ''replace''] then a_len op else 0) = a_len op"
    using op by auto
  moreover from Cons have "covered a_len [''equal'', ''delete'', ''replace''] ops = sum_list (map a_len ops)"
    by simp
  ultimately show ?case by (simp only: covered_Cons list.map sum_list.Cons)
qed

lemma covered_b_all:
  "list_all opcode_ok ops \<Longrightarrow>
   covered b_len [''equal'', ''insert'', ''replace''] ops = sum_list (map b_len ops)"
proof (induction ops)
  case Nil
  then show ?case by (simp add: covered_def)
next
  case (Cons op ops)
  obtain tag i1 i2 j1 j2 where op: "op = (tag, i1, i2, j1, j2)" by (cases op) auto
  from Cons.prems op have "tag = ''replace'' \<or> tag = ''delete'' \<and> j2 \<le> j1 \<or> tag = ''insert'' \<or> tag = ''equal''"
    by (auto simp: opcode_ok_def)
  then have "(if fst op \<in> set [''equal'', ''insert'', ''replace''] then b_len op else 0) = b_len op"
    using op by auto
  moreover from Cons have "covered b_len [''equal'', ''insert'', ''replace''] ops = sum_list (map b_len ops)"
    by simp
  ultimately show ?case by (simp only: covered_Cons list.map sum_list.Cons)
qed

text \<open>
  Claim C4. Classifier conservation and count agreement: for every pair of input strings,
  \<open>len(original_diff)\<close> is the number of original tokens under the \<open>equal\<close>, \<open>delete\<close>
  and \<open>replace\<close> opcodes and is the number of original tokens; \<open>len(revised_diff)\<close> is
  the number of revised tokens under the \<open>equal\<close>, \<open>insert\<close> and \<open>replace\<close> opcodes and
  is the number of revised tokens; the count of \<open>added\<close> is the size of the \<open>insert\<close>
  spans (revised side), the count of \<open>deleted\<close> the size of the \<open>delete\<close> spans (original
  side), and the count of \<open>modified\<close> the size of the \<open>replace\<close> spans, on each side.
  Tokens are counted whatever their class: nothing filters whitespace tokens.
\<close>

theorem classifier_conservation:
  "(let original_words = findall sp original;
        revised_words = findall sp revised;
        ops = get_opcodes original_words revised_words;
        original_diff = fst (generate_word_diff sp original revised);
        revised_diff = snd (generate_word_diff sp original revised)
    in length original_diff = covered a_len [''equal'', ''delete'', ''replace''] ops \<and>
       length original_diff = length original_words \<and>
       length revised_diff = covered b_len [''equal'', ''insert'', ''replace''] ops \<and>
       length revised_diff = length revised_words \<and>
       added_count revised_diff = covered b_len [''insert''] ops \<and>
       modified_count revised_diff = covered b_len [''replace''] ops \<and>
       deleted_count original_diff = covered a_len [''delete''] ops \<and>
       count_status ''modified'' original_diff = covered a_len [''replace''] ops)"
proof -
  define ows where "ows = findall sp original"
  define rws where "rws = findall sp revised"
  define ops where "ops = get_opcodes ows rws"
  define od where "od = concat (map (original_part ows) ops)"
  define rd where "rd = concat (map (revised_part rws) ops)"
  have gen: "generate_word_diff sp original revised = (od, rd)"
    by (simp add: generate_word_diff_parts od_def rd_def ops_def ows_def rws_def)
  have ok: "list_all opcode_ok ops" unfolding ops_def by (rule get_opcodes_ok)
  have tiles: "tiles (map a_range ops) 0 (length ows)" "tiles (map b_range ops) 0 (length rws)"
    using get_opcodes_tiles [of ows rws] by (simp_all add: ops_def)
  have 1: "length od = covered a_len [''equal'', ''delete'', ''replace''] ops"
    unfolding od_def by (rule length_parts) (rule original_part_length)
  have 2: "length od = length ows"
    using 1 covered_a_all [OF ok] tiles_a_total [OF tiles(1)] by simp
  have 3: "length rd = covered b_len [''equal'', ''insert'', ''replace''] ops"
    unfolding rd_def by (rule length_parts) (rule revised_part_length)
  have 4: "length rd = length rws"
    using 3 covered_b_all [OF ok] tiles_b_total [OF tiles(2)] by simp
  have 5: "added_count rd = covered b_len [''insert''] ops"
    unfolding rd_def added_count_def by (rule count_parts) (rule revised_part_added)
  have 6: "modified_count rd = covered b_len [''replace''] ops"
    unfolding rd_def modified_count_def by (rule count_parts) (rule revised_part_modified)
  have 7: "deleted_count od = covered a_len [''delete''] ops"
    unfolding od_def deleted_count_def by (rule count_parts) (rule original_part_deleted)
  have 8: "count_status ''modified'' od = covered a_len [''replace''] ops"
    unfolding od_def by (rule count_parts) (rule original_part_modified)
  from 1 2 3 4 5 6 7 8 show ?thesis
    unfolding Let_def gen fst_conv snd_conv ows_def [symmetric] rws_def [symmetric] ops_def [symmetric]
    by (intro conjI)
qed

section \<open>Aligning a sequence with itself\<close>

lemma indices_of_snoc:
  "indices_of (xs @ [x]) elt = indices_of xs elt @ (if x = elt then [length xs] else [])"
proof -
  have "filter (\<lambda>j. (xs @ [x]) ! j = elt) [0..<length xs] = filter (\<lambda>j. xs ! j = elt) [0..<length xs]"
    by (rule filter_cong) (auto simp: nth_append)
  then show ?thesis by (simp add: indices_of_def)
qed

lemma indices_of_empty: "elt \<notin> set xs \<Longrightarrow> indices_of xs elt = []"
  by (auto simp: indices_of_def filter_empty_conv)

lemma b2j_fold:
  "fold (\<lambda>(i, elt) m. m(elt \<mapsto> dict_get m elt [] @ [i])) (enumerate 0 b) Map.empty =
   (\<lambda>elt. if elt \<in> set b then Some (indices_of b elt) else None)"
proof (induction b rule: rev_induct)
  case Nil
  then show ?case by simp
next
  case (snoc x xs)
  define f :: "nat \<times> 'a \<Rightarrow> ('a \<rightharpoonup> nat list) \<Rightarrow> ('a \<rightharpoonup> nat list)"
    where "f = (\<lambda>(i, elt) m. m(elt \<mapsto> dict_get m elt [] @ [i]))"
  define m where "m = fold f (enumerate 0 xs) Map.empty"
  have m: "m = (\<lambda>elt. if elt \<in> set xs then Some (indices_of xs elt) else None)"
    unfolding m_def f_def by (rule snoc.IH)
  have "fold f (enumerate 0 (xs @ [x])) Map.empty = f (length xs, x) m"
    by (simp add: enumerate_append_eq m_def)
  also have "\<dots> = m(x \<mapsto> dict_get m x [] @ [length xs])"
    by (simp add: f_def)
  also have "\<dots> = (\<lambda>elt. if elt \<in> set (xs @ [x]) then Some (indices_of (xs @ [x]) elt) else None)"
    by (rule ext) (simp add: m dict_get_def indices_of_snoc indices_of_empty)
  finally show ?case unfolding f_def .
qed

lemma chain_b_Some:
  "chain_b b elt = Some js \<Longrightarrow> js = indices_of b elt"
  by (auto simp: chain_b_def Let_def b2j_fold split: if_splits)

lemma indices_of_sorted: "sorted_wrt (<) (indices_of b elt)"
  by (simp add: indices_of_def sorted_wrt_filter)

lemma indices_of_set: "set (indices_of b elt) = {j. j < length b \<and> b ! j = elt}"
  by (auto simp: indices_of_def)

lemma run_len_le: "run_len np x \<le> x"
  by (induction x) auto

lemma row_loop_map:
  "\<forall>j \<in> set js. j < bhi \<Longrightarrow>
   fst (row_loop 0 bhi i m js (m0, best)) =
     (\<lambda>x. if x \<in> int ` set js then Some (dict_get m (x - 1) 0 + 1) else m0 x)"
proof (induction js arbitrary: m0 best)
  case Nil
  then show ?case by simp
next
  case (Cons j js)
  obtain besti bestj bestsize where best: "best = (besti, bestj, bestsize)"
    by (cases best) auto
  define k where "k = dict_get m (int j - 1) 0 + 1"
  from Cons.prems have j: "j < bhi" and js: "\<forall>j \<in> set js. j < bhi" by simp_all
  have "row_loop 0 bhi i m (j # js) (m0, best) =
      row_loop 0 bhi i m js (m0(int j \<mapsto> k),
        if k > bestsize then (i + 1 - k, j + 1 - k, k) else (besti, bestj, bestsize))"
    using j by (simp add: best Let_def k_def)
  then obtain best' where "row_loop 0 bhi i m (j # js) (m0, best) =
      row_loop 0 bhi i m js (m0(int j \<mapsto> k), best')" by blast
  then have "fst (row_loop 0 bhi i m (j # js) (m0, best)) =
     (\<lambda>x. if x \<in> int ` set js then Some (dict_get m (x - 1) 0 + 1) else (m0(int j \<mapsto> k)) x)"
    using Cons.IH [OF js] by simp
  then show ?case by (auto simp: k_def)
qed

lemma row_loop_keep:
  "\<forall>j \<in> set js. j < bhi \<and> dict_get m (int j - 1) 0 + 1 \<le> bestsize \<Longrightarrow>
   snd (row_loop 0 bhi i m js (m0, besti, bestj, bestsize)) = (besti, bestj, bestsize)"
  by (induction js arbitrary: m0) (auto simp: Let_def)

lemma row_loop_append:
  "\<forall>j \<in> set js1. j < bhi \<Longrightarrow>
   row_loop 0 bhi i m (js1 @ js2) st = row_loop 0 bhi i m js2 (row_loop 0 bhi i m js1 st)"
proof (induction js1 arbitrary: st)
  case Nil
  then show ?case by simp
next
  case (Cons j js1)
  obtain m0 besti bestj bestsize where st: "st = (m0, besti, bestj, bestsize)"
    by (cases st) auto
  from Cons show ?case unfolding st by (simp add: Let_def)
qed

lemma diag_row:
  assumes lo: "lo < length a" and J: "diag_j2len a lo m" and B: "diag_best a lo best"
    and row: "row_loop 0 (length a) lo m (dict_get (chain_b a) (a ! lo) []) (Map.empty, best) = (m', best')"
  shows "diag_j2len a (Suc lo) m' \<and> diag_best a (Suc lo) best'"
proof (cases "nonpopular a lo")
  case False
  then have "dict_get (chain_b a) (a ! lo) [] = []"
    by (simp add: nonpopular_def dict_get_def)
  with row have "m' = Map.empty" "best' = best" by simp_all
  moreover have "run_len (nonpopular a) (Suc lo) = 0" using False by simp
  ultimately show ?thesis using B
    by (auto simp: diag_j2len_def diag_best_def dict_get_def le_Suc_eq)
next
  case True
  let ?E = "run_len (nonpopular a)"
  obtain js where js: "chain_b a (a ! lo) = Some js"
    using True by (auto simp: nonpopular_def)
  then have jsi: "js = indices_of a (a ! lo)" by (rule chain_b_Some)
  have get: "dict_get (chain_b a) (a ! lo) [] = js" by (simp add: dict_get_def js)
  have mem: "j < length a \<and> a ! j = a ! lo" if "j \<in> set js" for j
    using that jsi indices_of_set [of a "a ! lo"] by auto
  have np: "nonpopular a j" if "j \<in> set js" for j
    using mem [OF that] js by (simp add: nonpopular_def)
  have "lo \<in> set js" using jsi lo by (simp add: indices_of_set)
  then obtain js1 js2 where split: "js = js1 @ lo # js2" by (meson split_list)
  have "sorted_wrt (<) js" using jsi indices_of_sorted by simp
  with split have lt1: "\<forall>j \<in> set js1. j < lo" and gt2: "\<forall>j \<in> set js2. lo < j"
    by (auto simp: sorted_wrt_append)
  define kf where "kf j = dict_get m (int j - 1) 0 + 1" for j
  have kf_le: "kf j \<le> ?E (Suc j) \<and> kf j \<le> ?E (Suc lo)" if "j \<in> set js" for j
  proof -
    from mem [OF that] have "j < length a" by simp
    with J have "dict_get m (int j - 1) 0 \<le> ?E lo" "dict_get m (int j - 1) 0 \<le> ?E j"
      by (auto simp: diag_j2len_def)
    with np [OF that] True show ?thesis by (simp add: kf_def)
  qed
  have kf_lo: "kf lo = ?E (Suc lo)"
    using J lo True by (simp add: kf_def diag_j2len_def)
  obtain besti bestj bestsize where best: "best = (besti, bestj, bestsize)"
    by (cases best) auto
  from B best have Bb: "besti = bestj" "\<forall>x \<le> lo. ?E x \<le> bestsize" "besti + bestsize \<le> lo"
    by (auto simp: diag_best_def)
  have all_lt: "\<forall>j \<in> set js. j < length a" using mem by simp
  have m': "m' = (\<lambda>x. if x \<in> int ` set js then Some (dict_get m (x - 1) 0 + 1) else None)"
    using row_loop_map [OF all_lt, of lo m Map.empty best] row get by simp
  define k where "k = kf lo"
  define mid where
    "mid = (if k > bestsize then (lo + 1 - k, lo + 1 - k, k) else (besti, bestj, bestsize))"
  have s1: "snd (row_loop 0 (length a) lo m js1 (Map.empty, besti, bestj, bestsize)) =
      (besti, bestj, bestsize)"
  proof (rule row_loop_keep, intro ballI conjI)
    fix j assume j: "j \<in> set js1"
    then have in_js: "j \<in> set js" using split by simp
    from mem [OF in_js] show "j < length a" by simp
    from kf_le [OF in_js] have "kf j \<le> ?E (Suc j)" by simp
    moreover from lt1 j have "Suc j \<le> lo" by auto
    with Bb(2) have "?E (Suc j) \<le> bestsize" by blast
    ultimately show "dict_get m (int j - 1) 0 + 1 \<le> bestsize" by (simp add: kf_def)
  qed
  obtain m1 where r1: "row_loop 0 (length a) lo m js1 (Map.empty, besti, bestj, bestsize) =
      (m1, besti, bestj, bestsize)"
    using s1 by (cases "row_loop 0 (length a) lo m js1 (Map.empty, besti, bestj, bestsize)") auto
  have r2: "row_loop 0 (length a) lo m (lo # js2) (m1, besti, bestj, bestsize) =
      row_loop 0 (length a) lo m js2 (m1(int lo \<mapsto> k), mid)"
    using lo Bb(1) by (simp add: Let_def k_def kf_def mid_def)
  obtain mi mj ms where midv: "mid = (mi, mj, ms)" by (cases mid) auto
  have k_ms: "k \<le> ms" using midv by (auto simp: mid_def split: if_splits)
  have s3: "snd (row_loop 0 (length a) lo m js2 (m1(int lo \<mapsto> k), mi, mj, ms)) = (mi, mj, ms)"
  proof (rule row_loop_keep, intro ballI conjI)
    fix j assume j: "j \<in> set js2"
    then have in_js: "j \<in> set js" using split by simp
    from mem [OF in_js] show "j < length a" by simp
    from kf_le [OF in_js] have "kf j \<le> ?E (Suc lo)" by simp
    with kf_lo k_ms show "dict_get m (int j - 1) 0 + 1 \<le> ms" by (simp add: kf_def k_def)
  qed
  have "\<forall>j \<in> set js1. j < length a" using all_lt split by simp
  then have "row_loop 0 (length a) lo m js (Map.empty, best) =
      row_loop 0 (length a) lo m js2 (m1(int lo \<mapsto> k), mid)"
    unfolding split best by (simp only: row_loop_append r1 r2)
  with row get s3 midv have best': "best' = mid" by simp
  have kE: "k = ?E (Suc lo)" using kf_lo by (simp add: k_def)
  have k_le: "k \<le> Suc lo" unfolding kE by (rule run_len_le)
  have "diag_best a (Suc lo) mid"
  proof (cases "k > bestsize")
    case True
    then have "\<forall>x \<le> Suc lo. ?E x \<le> k"
      using Bb(2) kE by (auto simp: le_Suc_eq simp del: run_len.simps)
    with True k_le show ?thesis by (simp add: mid_def diag_best_def)
  next
    case False
    then have "\<forall>x \<le> Suc lo. ?E x \<le> bestsize"
      using Bb(2) kE by (auto simp: le_Suc_eq simp del: run_len.simps)
    with False Bb show ?thesis by (simp add: mid_def diag_best_def)
  qed
  moreover have "diag_j2len a (Suc lo) m'"
    unfolding diag_j2len_def
  proof (intro conjI allI impI)
    fix j assume j: "j < length a"
    show "dict_get m' (int j - 1) 0 \<le> ?E (Suc lo)"
    proof (cases "int j - 1 \<in> int ` set js")
      case True
      then obtain j' where j': "j' \<in> set js" "int j - 1 = int j'" by auto
      with kf_le [OF j'(1)] show ?thesis by (simp add: m' dict_get_def kf_def)
    next
      case False
      then show ?thesis by (simp add: m' dict_get_def)
    qed
    show "dict_get m' (int j - 1) 0 \<le> ?E j"
    proof (cases "int j - 1 \<in> int ` set js")
      case True
      then obtain j' where j': "j' \<in> set js" "int j - 1 = int j'" by auto
      then have "j = Suc j'" by linarith
      with kf_le [OF j'(1)] j' show ?thesis by (simp add: m' dict_get_def kf_def)
    next
      case False
      then show ?thesis by (simp add: m' dict_get_def)
    qed
  next
    assume "Suc lo < length a"
    have "int (Suc lo) - 1 = int lo" by simp
    moreover have "int lo \<in> int ` set js" using \<open>lo \<in> set js\<close> by simp
    ultimately have "dict_get m' (int (Suc lo) - 1) 0 = kf lo"
      by (simp add: m' dict_get_def kf_def)
    with kf_lo show "dict_get m' (int (Suc lo) - 1) 0 = ?E (Suc lo)" by simp
  qed
  ultimately show ?thesis using best' by simp
qed

lemma longest_junk_free_diag:
  "diag_j2len a lo m \<Longrightarrow> diag_best a lo best \<Longrightarrow> lo \<le> length a \<Longrightarrow>
   diag_best a (length a) (longest_junk_free a (chain_b a) 0 (length a) [lo..<length a] (m, best))"
proof (induction "length a - lo" arbitrary: lo m best)
  case 0
  then show ?case by simp
next
  case (Suc n)
  then have lt: "lo < length a" by simp
  obtain m' best' where row:
    "row_loop 0 (length a) lo m (dict_get (chain_b a) (a ! lo) []) (Map.empty, best) = (m', best')"
    by (cases "row_loop 0 (length a) lo m (dict_get (chain_b a) (a ! lo) []) (Map.empty, best)") auto
  from diag_row [OF lt Suc.prems(1,2) row]
  have ok: "diag_j2len a (Suc lo) m'" "diag_best a (Suc lo) best'" by simp_all
  have "n = length a - Suc lo" using Suc.hyps(2) by simp
  from Suc.hyps(1) [OF this ok] lt
  have "diag_best a (length a)
      (longest_junk_free a (chain_b a) 0 (length a) [Suc lo..<length a] (m', best'))" by simp
  then show ?case using lt row by (simp add: upt_conv_Cons)
qed

lemma extend_left_same:
  "extend_left (\<lambda>elt. True) a a 0 0 (x, x, s) = (0, 0, s + x)"
proof (induction x arbitrary: s)
  case 0
  show ?case by (subst extend_left.simps) simp
next
  case (Suc x)
  from Suc.IH [of "s + 1"] show ?case by (subst extend_left.simps) simp
qed

lemma extend_right_same:
  "s \<le> n \<Longrightarrow> extend_right (\<lambda>elt. True) a a n n (0, 0, s) = (0, 0, n)"
proof (induction "n - s" arbitrary: s)
  case 0
  then show ?case by (subst extend_right.simps) simp
next
  case (Suc d)
  then have "s < n" by linarith
  moreover from Suc have "extend_right (\<lambda>elt. True) a a n n (0, 0, s + 1) = (0, 0, n)" by simp
  ultimately show ?case by (subst extend_right.simps) simp
qed

lemma extend_left_none: "extend_left (\<lambda>elt. False) a b alo blo m = m"
  by (cases m) (simp add: extend_left.simps)

lemma extend_right_none: "extend_right (\<lambda>elt. False) a b ahi bhi m = m"
  by (cases m) (simp add: extend_right.simps)

lemma isbjunk_never: "isbjunk = (\<lambda>elt. False)"
  by (rule ext) (simp add: isbjunk_def)

lemma find_longest_match_same:
  "find_longest_match a a (chain_b a) 0 (length a) 0 (length a) = (0, 0, length a)"
proof -
  have "diag_j2len a 0 Map.empty" by (simp add: diag_j2len_def dict_get_def)
  moreover have "diag_best a 0 (0, 0, 0)" by (simp add: diag_best_def)
  ultimately have "diag_best a (length a)
      (longest_junk_free a (chain_b a) 0 (length a) [0..<length a] (Map.empty, (0, 0, 0)))"
    by (intro longest_junk_free_diag) simp_all
  then obtain x s where best0:
    "longest_junk_free a (chain_b a) 0 (length a) [0..<length a] (Map.empty, (0, 0, 0)) = (x, x, s)"
    and le: "x + s \<le> length a"
    by (auto simp: diag_best_def)
  show ?thesis
    unfolding find_longest_match_def Let_def best0 isbjunk_never
    using le by (simp add: extend_left_same extend_right_same extend_left_none extend_right_none)
qed

lemma mb_loop_empty: "mb_loop a b b2j [] blocks = blocks"
  by (subst mb_loop.simps) simp

lemma mb_loop_same:
  "mb_loop a a (chain_b a) [(0, length a, 0, length a)] [] =
     (if a = [] then [] else [(0, 0, length a)])"
  by (subst mb_loop.simps) (simp add: find_longest_match_same mb_loop_empty)

lemma get_opcodes_same:
  "get_opcodes a a = (if a = [] then [] else [(''equal'', 0, length a, 0, length a)])"
  by (simp add: get_opcodes_def get_matching_blocks_def mb_loop_same Let_def)

lemma tagged_all: "tagged ws 0 (length ws) status = map (\<lambda>w. (w, status)) ws"
proof -
  have "map (\<lambda>i. (ws ! i, status)) [0..<length ws] = map (\<lambda>w. (w, status)) (map ((!) ws) [0..<length ws])"
    by simp
  then show ?thesis by (simp only: tagged_def map_nth)
qed

lemma generate_word_diff_same:
  assumes "findall sp original = findall sp revised"
  shows "generate_word_diff sp original revised =
     (map (\<lambda>w. (w, ''unchanged'')) (findall sp original),
      map (\<lambda>w. (w, ''unchanged'')) (findall sp revised))"
  by (simp add: generate_word_diff_def Let_def assms [symmetric] get_opcodes_same tagged_all)

lemma count_status_other:
  "status \<noteq> wanted \<Longrightarrow> count_status wanted (map (\<lambda>w. (w, status)) ws) = 0"
  by (simp add: count_status_def filter_map comp_def)

text \<open>
  Claim C3, as amended. Aligner identity and no-change classification: aligning a
  non-empty token sequence with itself gives exactly one opcode, \<open>equal\<close> over the whole
  of both sides, and aligning the empty sequence with itself gives no opcode at all. For
  every pair of inputs whose token sequences are equal, \<open>generate_word_diff\<close> tags every
  token of both sides \<open>unchanged\<close>, and the counts of added, modified and deleted tokens
  are zero.
\<close>

theorem aligner_identity:
  "get_opcodes a a = (if a = [] then [] else [(''equal'', 0, length a, 0, length a)]) \<and>
   (findall sp original = findall sp revised \<longrightarrow>
      generate_word_diff sp original revised =
        (map (\<lambda>w. (w, ''unchanged'')) (findall sp original),
         map (\<lambda>w. (w, ''unchanged'')) (findall sp revised)) \<and>
      added_count (snd (generate_word_diff sp original revised)) = 0 \<and>
      modified_count (snd (generate_word_diff sp original revised)) = 0 \<and>
      deleted_count (fst (generate_word_diff sp original revised)) = 0)"
proof (intro conjI impI)
  show "get_opcodes a a = (if a = [] then [] else [(''equal'', 0, length a, 0, length a)])"
    by (rule get_opcodes_same)
next
  assume eq: "findall sp original = findall sp revised"
  note same = generate_word_diff_same [OF eq]
  show "generate_word_diff sp original revised =
        (map (\<lambda>w. (w, ''unchanged'')) (findall sp original),
         map (\<lambda>w. (w, ''unchanged'')) (findall sp revised))"
    by (rule same)
  show "added_count (snd (generate_word_diff sp original revised)) = 0"
    unfolding same snd_conv added_count_def by (rule count_status_other) simp
  show "modified_count (snd (generate_word_diff sp original revised)) = 0"
    unfolding same snd_conv modified_count_def by (rule count_status_other) simp
  show "deleted_count (fst (generate_word_diff sp original revised)) = 0"
    unfolding same fst_conv deleted_count_def by (rule count_status_other) simp
qed

text \<open>
  Scenario 1 of the specification: \<open>"The cat sat."\<close> against itself.
\<close>

lemma tokens_the_cat_sat:
  "findall isspace ''The cat sat.'' = [''The'', '' '', ''cat'', '' '', ''sat.'']"
  by code_simp

theorem aligner_identity_witness:
  "findall isspace ''The cat sat.'' = findall isspace ''The cat sat.'' \<and>
   get_opcodes (findall isspace ''The cat sat.'') (findall isspace ''The cat sat.'') =
     [(''equal'', 0, 5, 0, 5)] \<and>
   generate_word_diff isspace ''The cat sat.'' ''The cat sat.'' =
     ([(''The'', ''unchanged''), ('' '', ''unchanged''), (''cat'', ''unchanged''),
       ('' '', ''unchanged''), (''sat.'', ''unchanged'')],
      [(''The'', ''unchanged''), ('' '', ''unchanged''), (''cat'', ''unchanged''),
       ('' '', ''unchanged''), (''sat.'', ''unchanged'')]) \<and>
   added_count (snd (generate_word_diff isspace ''The cat sat.'' ''The cat sat.'')) = 0 \<and>
   modified_count (snd (generate_word_diff isspace ''The cat sat.'' ''The cat sat.'')) = 0 \<and>
   deleted_count (fst (generate_word_diff isspace ''The cat sat.'' ''The cat sat.'')) = 0"
  using aligner_identity [of "findall isspace ''The cat sat.''" isspace "''The cat sat.''" "''The cat sat.''"]
  by (simp add: tokens_the_cat_sat added_count_def modified_count_def deleted_count_def
      count_status_def)

text \<open>
  The claim as stated fails for the empty input: the token sequences are equal (both
  empty), and the sequence matcher returns no opcode, not one \<open>equal\<close> opcode.
\<close>

theorem aligner_identity_counterexample:
  "findall isspace [] = findall isspace [] \<and>
   length (get_opcodes (findall isspace []) (findall isspace [])) \<noteq> 1 \<and>
   get_opcodes (findall isspace []) (findall isspace []) = []"
  by (simp add: get_opcodes_same)

section \<open>The report of the results section\<close>

text \<open>
  Whatever the two texts are, the report is built from the two empty lists, so the three
  counts it prints are \<open>0\<close>.
\<close>

lemma report_from_empty_diffs:
  "snd (results_section original_text assisted_text mode) =
     comparison_report original_text assisted_text mode [] []"
  by (simp add: results_section_def Let_def)

text \<open>
  Claim C5 (the report's counts are those of the change summary) fails in the code. For
  the original \<open>"The cat sat."\<close>, the revision \<open>"The dog sat."\<close> and mode \<open>full\<close>, the
  change summary shows one modified token, and the report says \<open>Modified words: 0\<close>.
\<close>

theorem report_counts_differ_from_summary:
  "results_section ''The cat sat.'' ''The dog sat.'' ''full'' =
     (Some (0, 1, 0),
      ''ORIGINAL TEXT:'' @ nl @
      ''The cat sat.'' @ nl @
      nl @
      ''REVISED TEXT:'' @ nl @
      ''The dog sat.'' @ nl @
      nl @
      ''CHANGES SUMMARY:'' @ nl @
      ''- Mode used: full'' @ nl @
      ''- Added words: 0'' @ nl @
      ''- Modified words: 0'' @ nl @
      ''- Deleted words: 0'' @ nl)"
  by code_simp

section \<open>Properties of the Assist Gateway\<close>

lemma strip_empty_iff: "(strip s = []) = list_all isspace s"
proof -
  have "(dropWhile isspace (rev (dropWhile isspace s)) = []) = (dropWhile isspace s = [])"
  proof
    assume "dropWhile isspace (rev (dropWhile isspace s)) = []"
    then have all: "\<forall>c \<in> set (dropWhile isspace s). isspace c"
      by (simp add: dropWhile_eq_Nil_conv)
    show "dropWhile isspace s = []"
    proof (rule ccontr)
      assume ne: "dropWhile isspace s \<noteq> []"
      then have "\<not> isspace (hd (dropWhile isspace s))" by (rule hd_dropWhile)
      moreover from ne have "hd (dropWhile isspace s) \<in> set (dropWhile isspace s)" by simp
      ultimately show False using all by blast
    qed
  next
    assume e: "dropWhile isspace s = []"
    show "dropWhile isspace (rev (dropWhile isspace s)) = []" unfolding e by simp
  qed
  moreover have "(dropWhile isspace s = []) = list_all isspace s"
    by (simp add: dropWhile_eq_Nil_conv list_all_iff)
  ultimately show ?thesis by (simp add: strip_def)
qed

lemma assist_report_empty:
  "strip (request_text data) = [] \<Longrightarrow>
   assist_report backend data = (Inl (HTTPException 422 ''Empty text input.''), [])"
  by (simp add: assist_report_def)

lemma assist_report_query:
  "strip (request_text data) \<noteq> [] \<Longrightarrow>
   assist_report backend data =
     (case query_ollama backend (prompt (sent_request data)) of
        (Inl msg, sent) \<Rightarrow> (Inl (HTTPException 500 (''LLM error: '' @ msg)), sent)
      | (Inr (JString response), sent) \<Rightarrow> (Inr [(''assisted_text'', strip response)], sent)
      | (Inr (JNotString msg), sent) \<Rightarrow> (Inl (HTTPException 500 (''LLM error: '' @ msg)), sent))"
  by (simp add: assist_report_def sent_request_def Let_def)

lemma query_ollama_sent:
  "snd (query_ollama backend (prompt (sent_request data))) = [sent_request data]"
  by (simp add: query_ollama_def sent_request_def Let_def)

lemma query_ollama_request:
  "query_ollama backend (prompt (sent_request data)) =
     (case backend (sent_request data) of
        Raises msg \<Rightarrow> Inl msg
      | Returns res \<Rightarrow>
          (case raise_for_status res of
             Some msg \<Rightarrow> Inl msg
           | None \<Rightarrow>
               (case body res of
                  NotJSON msg \<Rightarrow> Inl msg
                | JSONOther msg \<Rightarrow> Inl msg
                | JSONObject d \<Rightarrow>
                    (case d ''response'' of
                       None \<Rightarrow> Inl key_error_response
                     | Some v \<Rightarrow> Inr v))),
      [sent_request data])"
  by (simp add: query_ollama_def sent_request_def Let_def)

lemma assist_report_not_422:
  assumes "strip (request_text data) \<noteq> []"
  shows "fst (assist_report backend data) \<noteq> Inl (HTTPException 422 d)"
  unfolding assist_report_query [OF assms]
  by (simp split: prod.splits sum.splits jvalue.splits)

text \<open>
  Claim C6. Validation before any network call: for every request whose text is empty
  after \<open>strip()\<close>, that is, empty or made of whitespace only, the handler raises
  \<open>HTTPException(422, "Empty text input.")\<close> and sends nothing to the inference
  backend; for a text that is not empty after \<open>strip()\<close> it raises no 422.
\<close>

theorem validation_before_network:
  "(strip (request_text data) = []) = list_all isspace (request_text data) \<and>
   (strip (request_text data) = [] \<longrightarrow>
      assist_report backend data = (Inl (HTTPException 422 ''Empty text input.''), [])) \<and>
   (strip (request_text data) \<noteq> [] \<longrightarrow>
      (\<forall>d. fst (assist_report backend data) \<noteq> Inl (HTTPException 422 d)))"
  using strip_empty_iff assist_report_empty assist_report_not_422 by blast

lemma strip_spaces: "strip ''  '' = []"
  by (simp add: strip_def isspace_def)

lemma strip_hello: "strip '' Hello '' = ''Hello''"
  by (simp add: strip_def isspace_def)

theorem validation_before_network_witness:
  "strip (request_text \<lparr>request_text = ''  '', request_mode = ''full''\<rparr>) = [] \<and>
   assist_report (\<lambda>req. Raises ''unreachable'') \<lparr>request_text = ''  '', request_mode = ''full''\<rparr> =
     (Inl (HTTPException 422 ''Empty text input.''), []) \<and>
   strip (request_text \<lparr>request_text = '' Hello '', request_mode = ''full''\<rparr>) \<noteq> [] \<and>
   fst (assist_report (\<lambda>req. Raises ''unreachable'') \<lparr>request_text = '' Hello '', request_mode = ''full''\<rparr>) \<noteq>
     Inl (HTTPException 422 ''Empty text input.'')"
  using
    validation_before_network [of "\<lparr>request_text = ''  '', request_mode = ''full''\<rparr>"
      "\<lambda>req. Raises ''unreachable''"]
    validation_before_network [of "\<lparr>request_text = '' Hello '', request_mode = ''full''\<rparr>"
      "\<lambda>req. Raises ''unreachable''"]
  by (simp add: strip_spaces strip_hello)

text \<open>
  Claim C7, as amended. Upstream failure mapping: for a request whose text is not empty
  after \<open>strip()\<close>, whenever \<open>requests.post\<close> raises (backend unreachable, timeout) or
  the backend answers with a status from 400 to 599, the handler raises
  \<open>HTTPException(500, "LLM error: " + str(e))\<close>, returns no assisted text, and has sent
  exactly one request.
\<close>

theorem upstream_failure_mapping:
  "strip (request_text data) \<noteq> [] \<longrightarrow>
     (backend (sent_request data) = Raises msg \<longrightarrow>
        assist_report backend data =
          (Inl (HTTPException 500 (''LLM error: '' @ msg)), [sent_request data])) \<and>
     (backend (sent_request data) = Returns res \<and> 400 \<le> status_code res \<and> status_code res < 600 \<longrightarrow>
        (case raise_for_status res of
           None \<Rightarrow> False
         | Some msg' \<Rightarrow>
             assist_report backend data =
               (Inl (HTTPException 500 (''LLM error: '' @ msg')), [sent_request data])))"
proof (intro impI conjI)
  assume ne: "strip (request_text data) \<noteq> []" and "backend (sent_request data) = Raises msg"
  then show "assist_report backend data =
      (Inl (HTTPException 500 (''LLM error: '' @ msg)), [sent_request data])"
    by (simp add: assist_report_query query_ollama_request)
next
  assume ne: "strip (request_text data) \<noteq> []"
    and r: "backend (sent_request data) = Returns res \<and> 400 \<le> status_code res \<and> status_code res < 600"
  then have "raise_for_status res \<noteq> None"
    by (simp add: raise_for_status_def)
  then obtain msg' where m: "raise_for_status res = Some msg'"
    by blast
  with ne r have "assist_report backend data =
      (Inl (HTTPException 500 (''LLM error: '' @ msg')), [sent_request data])"
    by (simp add: assist_report_query query_ollama_request)
  with m show "case raise_for_status res of
           None \<Rightarrow> False
         | Some msg' \<Rightarrow>
             assist_report backend data =
               (Inl (HTTPException 500 (''LLM error: '' @ msg')), [sent_request data])"
    by simp
qed

lemma raise_for_status_500:
  "raise_for_status \<lparr>status_code = 500, reason = ''Internal Server Error'', body = NotJSON []\<rparr> =
     Some ''500 Server Error: Internal Server Error for url: http://localhost:11434/api/generate''"
  by code_simp

theorem upstream_failure_mapping_witness:
  "strip (request_text \<lparr>request_text = '' Hello '', request_mode = ''full''\<rparr>) \<noteq> [] \<and>
   400 \<le> status_code \<lparr>status_code = 500, reason = ''Internal Server Error'', body = NotJSON []\<rparr> \<and>
   status_code \<lparr>status_code = 500, reason = ''Internal Server Error'', body = NotJSON []\<rparr> < 600 \<and>
   assist_report (\<lambda>req. Raises ''Connection refused'')
       \<lparr>request_text = '' Hello '', request_mode = ''full''\<rparr> =
     (Inl (HTTPException 500 ''LLM error: Connection refused''),
      [sent_request \<lparr>request_text = '' Hello '', request_mode = ''full''\<rparr>]) \<and>
   assist_report
       (\<lambda>req. Returns \<lparr>status_code = 500, reason = ''Internal Server Error'', body = NotJSON []\<rparr>)
       \<lparr>request_text = '' Hello '', request_mode = ''full''\<rparr> =
     (Inl (HTTPException 500
        ''LLM error: 500 Server Error: Internal Server Error for url: http://localhost:11434/api/generate''),
      [sent_request \<lparr>request_text = '' Hello '', request_mode = ''full''\<rparr>])"
  using
    upstream_failure_mapping [of "\<lparr>request_text = '' Hello '', request_mode = ''full''\<rparr>"
      "\<lambda>req. Raises ''Connection refused''" "''Connection refused''"]
    upstream_failure_mapping [of "\<lparr>request_text = '' Hello '', request_mode = ''full''\<rparr>"
      "\<lambda>req. Returns \<lparr>status_code = 500, reason = ''Internal Server Error'', body = NotJSON []\<rparr>"
      _ "\<lparr>status_code = 500, reason = ''Internal Server Error'', body = NotJSON []\<rparr>"]
  by (simp add: strip_hello raise_for_status_500)

text \<open>
  The claim as stated fails for a status that is neither 2xx nor 4xx nor 5xx: the
  backend answers \<open>300 Multiple Choices\<close> with the body \<open>{"response": " ok "}\<close>;
  \<open>raise_for_status\<close> raises nothing, and the handler returns the assisted text.
\<close>

theorem upstream_failure_mapping_counterexample:
  "assist_report
       (\<lambda>req. Returns \<lparr>status_code = 300, reason = ''Multiple Choices'',
                         body = JSONObject [''response'' \<mapsto> JString '' ok '']\<rparr>)
       \<lparr>request_text = '' Hello '', request_mode = ''full''\<rparr> =
     (Inr [(''assisted_text'', ''ok'')],
      [sent_request \<lparr>request_text = '' Hello '', request_mode = ''full''\<rparr>])"
  by (simp add: assist_report_query query_ollama_request strip_hello raise_for_status_def)
    (simp add: strip_def isspace_def)

text \<open>
  Claim C8, as amended. Malformed response: for a request whose text is not empty after
  \<open>strip()\<close>, when the backend answers with a 2xx status and a JSON object without the
  field \<open>response\<close>, the handler produces no assisted text: it raises
  \<open>HTTPException(500, "LLM error: 'response'")\<close>, the same exception class, status and
  detail prefix as for an upstream failure, after exactly one request.
\<close>

theorem malformed_response:
  "strip (request_text data) \<noteq> [] \<and> backend (sent_request data) = Returns res \<and>
   200 \<le> status_code res \<and> status_code res < 300 \<and> body res = JSONObject d \<and>
   d ''response'' = None \<longrightarrow>
     assist_report backend data =
       (Inl (HTTPException 500 (''LLM error: '' @ key_error_response)), [sent_request data])"
  by (simp add: assist_report_query query_ollama_request raise_for_status_def)

theorem malformed_response_witness:
  "strip (request_text \<lparr>request_text = '' Hello '', request_mode = ''grammar''\<rparr>) \<noteq> [] \<and>
   [''error'' \<mapsto> JString ''model not found''] ''response'' = None \<and>
   assist_report
       (\<lambda>req. Returns \<lparr>status_code = 200, reason = ''OK'',
                         body = JSONObject [''error'' \<mapsto> JString ''model not found'']\<rparr>)
       \<lparr>request_text = '' Hello '', request_mode = ''grammar''\<rparr> =
     (Inl (HTTPException 500 (''LLM error: '' @ key_error_response)),
      [sent_request \<lparr>request_text = '' Hello '', request_mode = ''grammar''\<rparr>])"
  using
    malformed_response [of "\<lparr>request_text = '' Hello '', request_mode = ''grammar''\<rparr>"
      "\<lambda>req. Returns \<lparr>status_code = 200, reason = ''OK'',
                         body = JSONObject [''error'' \<mapsto> JString ''model not found'']\<rparr>"
      "\<lparr>status_code = 200, reason = ''OK'',
         body = JSONObject [''error'' \<mapsto> JString ''model not found'']\<rparr>"
      "[''error'' \<mapsto> JString ''model not found'']"]
  by (simp add: strip_hello)

text \<open>
  The claim as stated fails: the failure for a malformed response is not of a kind of its
  own. A 2xx answer without the field \<open>response\<close> and a 500 answer both end in an
  \<open>HTTPException\<close> with status 500 and a detail that starts with \<open>LLM error: \<close>.
\<close>

theorem malformed_response_counterexample:
  "fst (assist_report
       (\<lambda>req. Returns \<lparr>status_code = 200, reason = ''OK'', body = JSONObject Map.empty\<rparr>)
       \<lparr>request_text = '' Hello '', request_mode = ''full''\<rparr>) =
     Inl (HTTPException 500 (''LLM error: '' @ key_error_response)) \<and>
   fst (assist_report
       (\<lambda>req. Returns \<lparr>status_code = 500, reason = ''Internal Server Error'', body = NotJSON []\<rparr>)
       \<lparr>request_text = '' Hello '', request_mode = ''full''\<rparr>) =
     Inl (HTTPException 500
       (''LLM error: '' @
        ''500 Server Error: Internal Server Error for url: http://localhost:11434/api/generate''))"
  by (simp add: assist_report_query query_ollama_request strip_hello raise_for_status_500)
    (simp add: raise_for_status_def)

section \<open>Scenarios of the specification\<close>

text \<open>
  Scenario 2: \<open>"The cat sat."\<close> against \<open>"The dog sat."\<close>; \<open>cat\<close> and \<open>dog\<close> are
  tagged \<open>modified\<close>, every other token \<open>unchanged\<close>.
\<close>

lemma scenario_2:
  "generate_word_diff isspace ''The cat sat.'' ''The dog sat.'' =
     ([(''The'', ''unchanged''), ('' '', ''unchanged''), (''cat'', ''modified''),
       ('' '', ''unchanged''), (''sat.'', ''unchanged'')],
      [(''The'', ''unchanged''), ('' '', ''unchanged''), (''dog'', ''modified''),
       ('' '', ''unchanged''), (''sat.'', ''unchanged'')])"
  by code_simp

text \<open>
  Scenario 3: \<open>"Quick fix."\<close> against \<open>"Quick and fast fix."\<close>; the two new words and
  the whitespace tokens that come with them are tagged \<open>added\<close>.
\<close>

lemma scenario_3:
  "generate_word_diff isspace ''Quick fix.'' ''Quick and fast fix.'' =
     ([(''Quick'', ''unchanged''), ('' '', ''unchanged''), (''fix.'', ''unchanged'')],
      [(''Quick'', ''unchanged''), ('' '', ''unchanged''), (''and'', ''added''),
       ('' '', ''added''), (''fast'', ''added''), ('' '', ''added''),
       (''fix.'', ''unchanged'')])"
  by code_simp

end
